theory Spec2Isabelle
  imports Main "HOL-Library.Word" "HOL-Library.Log_Nat"
begin

section \<open>The byte buffer of \<open>src/serialize.c\<close>\<close>

text \<open>
  The C file keeps one struct for both directions of the stream:
  \<^verbatim>\<open>typedef struct { R_xlen_t length; R_xlen_t pos; unsigned char *data; } buffer;\<close>
  \<open>R_xlen_t\<close> is a signed 64-bit integer on the platforms with long vector support, and
  those are the platforms modelled. \<open>length\<close> and \<open>pos\<close> are mathematical integers
  here: on a well-formed buffer both lie between 0 and \<open>2^52\<close> and the callbacks add an
  \<open>int\<close> (below \<open>2^31\<close>) to them, so the 64-bit sums of the C code are exact. The one
  conversion that can leave the range, the product in \<open>expand_buffer\<close>, is written out.
  The block that \<open>data\<close> points to is a list of cells, one per allocated byte; a cell
  that was never written after \<open>malloc\<close> or \<open>realloc\<close> holds an indeterminate value
  (\<open>None\<close>). The field \<open>length\<close> is called \<open>length_buffer\<close>, since \<open>length\<close>
  is the length of HOL lists.
\<close>

type_synonym byte = "8 word"

type_synonym cell = "byte option"

record buffer =
  length_buffer :: int
  pos :: int
  data :: "cell list"

text \<open>
  Every \<open>error(...)\<close> call of the C file leaves the running call through R's
  non-local exit. The constructors name the failure classes; the C messages are
  \<^item> \<open>AllocationFailure\<close>: "init_buffer(): cannot malloc buffer", "init_buffer(): cannot
    malloc buffer data", "Couldn't expand buffer to reallocate", "'buf' malloc failed!", and
    a failing \<open>allocVector\<close>;
  \<^item> \<open>CapacityExceeded\<close>: "Requested buffer expandsion too large";
  \<^item> \<open>BufferUnderrun\<close>: "read_byte(): overflow", "read_bytes(): overflow";
  \<^item> \<open>InvalidInput\<close>: "unpack(): Only raw vectors can be unserialized";
  \<^item> \<open>EngineEncodingError\<close>, \<open>EngineDecodingError\<close>: an error raised by
    \<open>R_Serialize\<close> or \<open>R_Unserialize\<close> themselves;
  \<^item> \<open>Undefined\<close>: the C standard gives the step no defined result (an access outside
    the block, a negative \<open>memcpy\<close> size, a conversion out of range, a read of an
    indeterminate byte).
\<close>

datatype error =
    AllocationFailure
  | CapacityExceeded
  | BufferUnderrun
  | InvalidInput
  | EngineEncodingError
  | EngineDecodingError
  | Undefined

text \<open>
  The two heap blocks a call owns: the \<open>buffer\<close> struct itself and the byte block its
  \<open>data\<close> field points to. \<open>live\<close> is the set of blocks obtained from
  \<open>malloc\<close>/\<open>realloc\<close> and not yet given to \<open>free\<close>.
\<close>

datatype blk = BufStruct | BufData

record wstate =
  buf :: buffer
  live :: "blk set"

text \<open>
  The allocators are outside the C file. \<open>malloc_ok n\<close> says whether \<open>malloc\<close> or
  \<open>realloc\<close> grants a request for \<open>n\<close> bytes, \<open>allocVector_ok n\<close> whether R's
  \<open>allocVector(RAWSXP, n)\<close> does. Within one call of \<open>pack_\<close> the sizes requested
  are all different (24, 16384, 32768, ...), so an answer per size covers every sequence
  of answers an allocator can give to that call.
\<close>

record env =
  malloc_ok :: "nat \<Rightarrow> bool"
  allocVector_ok :: "nat \<Rightarrow> bool"

text \<open>
  \<open>R_XLEN_T_MAX\<close> comes from R's \<open>Rinternals.h\<close>, which is not part of the
  repository: \<open>4503599627370496\<close> (\<open>2^52\<close>) where \<open>R_xlen_t\<close> is 64 bits wide.
  \<open>sizeof(buffer)\<close> is 24 there.
\<close>

definition R_XLEN_T_MAX :: int where
  "R_XLEN_T_MAX = 4503599627370496"

definition sizeof_buffer :: nat where
  "sizeof_buffer = 24"

text \<open>The conversion of a signed integer to \<open>size_t\<close> (64 bits).\<close>

definition size_t_of :: "int \<Rightarrow> nat" where
  "size_t_of n = nat (n mod 2 ^ 64)"

text \<open>
  \<open>(double) n\<close> for a 64-bit integer \<open>n\<close>: the nearest value with a 53-bit significand,
  ties to even. Up to \<open>2^53\<close> in absolute value the conversion is exact.
\<close>

definition double_of_xlen :: "int \<Rightarrow> int" where
  "double_of_xlen n =
     (if \<bar>n\<bar> \<le> 2 ^ 53 then n
      else (let e = nat (bitlen \<bar>n\<bar> - 53);
                u = 2 ^ e;
                q = \<bar>n\<bar> div u;
                r = \<bar>n\<bar> mod u
            in sgn n * (if 2 * r < u \<or> (2 * r = u \<and> even q) then q else q + 1) * u))"

text \<open>A fresh block of \<open>n\<close> bytes, and \<open>realloc\<close> to \<open>n\<close> bytes: the common prefix is
  kept, bytes beyond the old size are indeterminate.\<close>

definition malloc_cells :: "nat \<Rightarrow> cell list" where
  "malloc_cells n = replicate n None"

definition realloc_cells :: "cell list \<Rightarrow> nat \<Rightarrow> cell list" where
  "realloc_cells old n = take n old @ replicate (n - length old) None"

text \<open>An environment in which every allocation is granted.\<close>

definition unlimited :: env where
  "unlimited = \<lparr>malloc_ok = (\<lambda>n. True), allocVector_ok = (\<lambda>n. True)\<rparr>"

subsection \<open>\<open>init_buffer\<close>\<close>

text \<open>
  \<^verbatim>\<open>buffer *buf = malloc(sizeof(buffer));       if (buf == NULL) error(...);
buf->data = malloc(nbytes * sizeof(unsigned char)); if (buf->data == NULL) error(...);
buf->length = nbytes; buf->pos = 0;\<close>
  The second \<open>error\<close> is raised while the struct is allocated.
\<close>

definition init_buffer :: "env \<Rightarrow> int \<Rightarrow> (error + buffer) \<times> blk set" where
  "init_buffer ev nbytes =
     (if \<not> malloc_ok ev sizeof_buffer then (Inl AllocationFailure, {})
      else if \<not> malloc_ok ev (size_t_of nbytes) then (Inl AllocationFailure, {BufStruct})
      else (Inr \<lparr>length_buffer = nbytes, pos = 0, data = malloc_cells (size_t_of nbytes)\<rparr>,
            {BufStruct, BufData}))"

subsection \<open>\<open>expand_buffer\<close>\<close>

text \<open>
  \<^verbatim>\<open>double factor = 2;
buf->length = (R_xlen_t)(factor * buf->length);
if (buf->length > R_XLEN_T_MAX) error("Requested buffer expandsion too large: ...");
new_data = realloc(buf->data, buf->length);
if (new_data == NULL) { free(buf->data); free(buf); error("Couldn't expand ..."); }
buf->data = new_data;\<close>
  The product is computed in \<open>double\<close> and converted back; a product outside the range
  of \<open>R_xlen_t\<close> has no defined conversion. The length field is already doubled when
  either error is raised. The first error is raised with both blocks allocated, the second
  after both were freed (its message reads \<open>buf->length\<close> from the freed struct; the
  model does not follow that read). A failing \<open>realloc\<close> leaves the old block as it
  was, so the two calls of \<open>free\<close> release blocks that are allocated.
\<close>

definition expand_buffer :: "env \<Rightarrow> wstate \<Rightarrow> (error + unit) \<times> wstate" where
  "expand_buffer ev s =
     (let d = 2 * double_of_xlen (length_buffer (buf s)) in
      if d < - (2 ^ 63) \<or> 2 ^ 63 \<le> d then (Inl Undefined, s)
      else
        (let b = (buf s)\<lparr>length_buffer := d\<rparr> in
         if length_buffer b > R_XLEN_T_MAX then (Inl CapacityExceeded, s\<lparr>buf := b\<rparr>)
         else if \<not> malloc_ok ev (size_t_of (length_buffer b))
           then (Inl AllocationFailure, s\<lparr>buf := b, live := live s - {BufData} - {BufStruct}\<rparr>)
           else (Inr (),
                 s\<lparr>buf := b\<lparr>data := realloc_cells (data b) (size_t_of (length_buffer b))\<rparr>\<rparr>)))"

text \<open>
  The loop \<open>while (cond) expand_buffer(buf);\<close> that opens both write callbacks. It stops at
  the first error of \<open>expand_buffer\<close>. On a buffer of length 0 whose reallocation is
  granted the C loop does not end (twice 0 is 0), so the result is optional and \<open>None\<close>
  stands for a loop that never returns.
\<close>

partial_function (option) expand_while ::
  "(buffer \<Rightarrow> bool) \<Rightarrow> env \<Rightarrow> wstate \<Rightarrow> ((error + unit) \<times> wstate) option" where
  "expand_while cond ev s =
     (if cond (buf s)
      then (case expand_buffer ev s of
              (Inl e, s') \<Rightarrow> Some (Inl e, s')
            | (Inr u, s') \<Rightarrow> expand_while cond ev s')
      else Some (Inr (), s))"

declare expand_while.simps [code]

subsection \<open>The write callbacks\<close>

text \<open>
  \<^verbatim>\<open>while (buf->pos >= buf->length) expand_buffer(buf);
buf->data[buf->pos++] = (unsigned char)c;\<close>
\<close>

definition write_byte :: "env \<Rightarrow> wstate \<Rightarrow> int \<Rightarrow> ((error + unit) \<times> wstate) option" where
  "write_byte ev s c =
     (case expand_while (\<lambda>b. pos b \<ge> length_buffer b) ev s of
        None \<Rightarrow> None
      | Some (Inl e, s') \<Rightarrow> Some (Inl e, s')
      | Some (Inr u, s') \<Rightarrow>
          (let b = buf s' in
           if 0 \<le> pos b \<and> pos b < int (length (data b))
           then Some (Inr (),
                  s'\<lparr>buf := b\<lparr>data := (data b)[nat (pos b) := Some (word_of_int c)],
                              pos := pos b + 1\<rparr>\<rparr>)
           else Some (Inl Undefined, s')))"

text \<open>
  \<open>memcpy(dst + off, src, n)\<close>: defined when \<open>n\<close> is not negative, \<open>src\<close> holds at
  least \<open>n\<close> bytes and the block has room for them from \<open>off\<close> on.
\<close>

definition memcpy_cells :: "cell list \<Rightarrow> int \<Rightarrow> byte list \<Rightarrow> int \<Rightarrow> cell list option" where
  "memcpy_cells dst off src n =
     (if 0 \<le> n \<and> n \<le> int (length src) \<and> 0 \<le> off \<and> off + n \<le> int (length dst)
      then Some (take (nat off) dst @ map Some (take (nat n) src) @ drop (nat (off + n)) dst)
      else None)"

text \<open>
  \<^verbatim>\<open>while (buf->pos + length > buf->length) expand_buffer(buf);
memcpy(buf->data + buf->pos, src, length);
buf->pos += length;\<close>
\<close>

definition write_bytes ::
  "env \<Rightarrow> wstate \<Rightarrow> byte list \<Rightarrow> int \<Rightarrow> ((error + unit) \<times> wstate) option" where
  "write_bytes ev s src n =
     (case expand_while (\<lambda>b. pos b + n > length_buffer b) ev s of
        None \<Rightarrow> None
      | Some (Inl e, s') \<Rightarrow> Some (Inl e, s')
      | Some (Inr u, s') \<Rightarrow>
          (let b = buf s' in
           case memcpy_cells (data b) (pos b) src n of
             None \<Rightarrow> Some (Inl Undefined, s')
           | Some d \<Rightarrow> Some (Inr (), s'\<lparr>buf := b\<lparr>data := d, pos := pos b + n\<rparr>\<rparr>)))"

subsection \<open>The read callbacks\<close>

text \<open>
  \<^verbatim>\<open>if (buf->pos >= buf->length) error("read_byte(): overflow");
return buf->data[buf->pos++];\<close>
\<close>

definition read_byte :: "buffer \<Rightarrow> (error + int) \<times> buffer" where
  "read_byte b =
     (if pos b \<ge> length_buffer b then (Inl BufferUnderrun, b)
      else if 0 \<le> pos b \<and> pos b < int (length (data b))
        then (case data b ! nat (pos b) of
                None \<Rightarrow> (Inl Undefined, b)
              | Some x \<Rightarrow> (Inr (uint x), b\<lparr>pos := pos b + 1\<rparr>))
        else (Inl Undefined, b))"

text \<open>The bytes of \<open>n\<close> cells from \<open>off\<close> on, when the range lies in the block and
  every cell in it was written.\<close>

definition bytes_at :: "cell list \<Rightarrow> int \<Rightarrow> int \<Rightarrow> byte list option" where
  "bytes_at src off n =
     (if 0 \<le> n \<and> 0 \<le> off \<and> off + n \<le> int (length src)
         \<and> list_all (\<lambda>c. c \<noteq> None) (take (nat n) (drop (nat off) src))
      then Some (map the (take (nat n) (drop (nat off) src)))
      else None)"

text \<open>
  \<^verbatim>\<open>if (buf->pos + length > buf->length) error("read_bytes(): overflow");
memcpy(dst, buf->data + buf->pos, length);
buf->pos += length;\<close>
  The result is the content of \<open>dst\<close> after the call.
\<close>

definition read_bytes :: "buffer \<Rightarrow> int \<Rightarrow> (error + byte list) \<times> buffer" where
  "read_bytes b n =
     (if pos b + n > length_buffer b then (Inl BufferUnderrun, b)
      else (case bytes_at (data b) (pos b) n of
              None \<Rightarrow> (Inl Undefined, b)
            | Some bs \<Rightarrow> (Inr bs, b\<lparr>pos := pos b + n\<rparr>)))"

subsection \<open>The serialization engine at the stream boundary\<close>

text \<open>
  \<open>R_Serialize\<close> and \<open>R_Unserialize\<close> belong to R, not to the repository. Through the
  stream structure they see nothing but the callbacks. The write callbacks return nothing,
  so for a given object \<open>R_Serialize\<close> issues a fixed finite sequence of calls, which may
  end in an error of its own; \<open>R_Unserialize\<close> chooses each next call from the bytes it
  has read so far, so it is a tree of read calls.
\<close>

datatype wcall = WriteByte int | WriteBytes "byte list" int | EncodeError

datatype 'v decoder =
    Return 'v
  | DecodeError
  | ReadByte "int \<Rightarrow> 'v decoder"
  | ReadBytes int "byte list \<Rightarrow> 'v decoder"

definition out_call :: "env \<Rightarrow> wcall \<Rightarrow> wstate \<Rightarrow> ((error + unit) \<times> wstate) option" where
  "out_call ev c s =
     (case c of
        WriteByte x \<Rightarrow> write_byte ev s x
      | WriteBytes src n \<Rightarrow> write_bytes ev s src n
      | EncodeError \<Rightarrow> Some (Inl EngineEncodingError, s))"

fun R_Serialize :: "env \<Rightarrow> wcall list \<Rightarrow> wstate \<Rightarrow> ((error + unit) \<times> wstate) option" where
  "R_Serialize ev [] s = Some (Inr (), s)"
| "R_Serialize ev (c # cs) s =
     (case out_call ev c s of
        None \<Rightarrow> None
      | Some (Inl e, s') \<Rightarrow> Some (Inl e, s')
      | Some (Inr u, s') \<Rightarrow> R_Serialize ev cs s')"

primrec R_Unserialize :: "'v decoder \<Rightarrow> buffer \<Rightarrow> (error + 'v) \<times> buffer" where
  "R_Unserialize (Return v) = (\<lambda>b. (Inr v, b))"
| "R_Unserialize DecodeError = (\<lambda>b. (Inl EngineDecodingError, b))"
| "R_Unserialize (ReadByte k) =
     (\<lambda>b. case read_byte b of
             (Inl e, b') \<Rightarrow> (Inl e, b')
           | (Inr x, b') \<Rightarrow> R_Unserialize (k x) b')"
| "R_Unserialize (ReadBytes n k) =
     (\<lambda>b. case read_bytes b n of
             (Inl e, b') \<Rightarrow> (Inl e, b')
           | (Inr bs, b') \<Rightarrow> R_Unserialize (k bs) b')"

subsection \<open>\<open>pack_\<close> and \<open>unpack_\<close>\<close>

text \<open>
  The C functions \<open>pack_\<close> and \<open>unpack_\<close> are called \<open>pack\<close> and \<open>unpack\<close> here
  (a name cannot end in an underscore).
  \<^verbatim>\<open>buffer *buf = init_buffer(16384);
R_InitOutPStream(&output_stream, buf, ..., write_byte, write_bytes, NULL, R_NilValue);
R_Serialize(robj, &output_stream);
SEXP res_ = PROTECT(allocVector(RAWSXP, buf->pos));
memcpy(RAW(res_), buf->data, buf->pos);
free(buf->data); free(buf);
UNPROTECT(1); return res_;\<close>
  The object \<open>robj\<close> enters the model as the calls \<open>R_Serialize\<close> issues for it. The
  result pairs the raw vector, or the error that left the call, with the blocks still
  allocated at that moment.
\<close>

definition pack :: "env \<Rightarrow> wcall list \<Rightarrow> ((error + byte list) \<times> blk set) option" where
  "pack ev robj =
     (case init_buffer ev 16384 of
        (Inl e, lv) \<Rightarrow> Some (Inl e, lv)
      | (Inr b0, lv) \<Rightarrow>
          (case R_Serialize ev robj \<lparr>buf = b0, live = lv\<rparr> of
             None \<Rightarrow> None
           | Some (Inl e, s) \<Rightarrow> Some (Inl e, live s)
           | Some (Inr u, s) \<Rightarrow>
               (if pos (buf s) < 0 \<or> \<not> allocVector_ok ev (nat (pos (buf s)))
                then Some (Inl AllocationFailure, live s)
                else (case bytes_at (data (buf s)) 0 (pos (buf s)) of
                        None \<Rightarrow> Some (Inl Undefined, live s)
                      | Some res \<Rightarrow> Some (Inr res, live s - {BufData} - {BufStruct})))))"

text \<open>The argument of \<open>unpack_\<close>: a raw vector, or an R object of another type.\<close>

datatype sexp = RAWSXP "byte list" | OTHERSXP

text \<open>The buffer that \<open>unpack_\<close> lays over the bytes of the raw vector, without a copy:
  \<^verbatim>\<open>buf->length = len; buf->pos = 0; buf->data = vec;\<close>\<close>

definition reader_over :: "byte list \<Rightarrow> buffer" where
  "reader_over vec = \<lparr>length_buffer = int (length vec), pos = 0, data = map Some vec\<rparr>"

text \<open>
  \<^verbatim>\<open>if (TYPEOF(vec_) != RAWSXP) error("unpack(): Only raw vectors can be unserialized");
buffer *buf = malloc(sizeof(buffer));  if (buf == NULL) error("'buf' malloc failed!");
buf->length = len; buf->pos = 0; buf->data = vec;
R_InitInPStream(&input_stream, buf, R_pstream_any_format, read_byte, read_bytes, NULL, NULL);
SEXP res_ = PROTECT(R_Unserialize(&input_stream));
free(buf);\<close>
  An error inside \<open>R_Unserialize\<close>, the callbacks' own included, leaves the call before
  \<open>free(buf)\<close>.
\<close>

definition unpack :: "env \<Rightarrow> 'v decoder \<Rightarrow> sexp \<Rightarrow> (error + 'v) \<times> blk set" where
  "unpack ev dec vec =
     (case vec of
        OTHERSXP \<Rightarrow> (Inl InvalidInput, {})
      | RAWSXP raw \<Rightarrow>
          (if \<not> malloc_ok ev sizeof_buffer then (Inl AllocationFailure, {})
           else (case R_Unserialize dec (reader_over raw) of
                   (Inl e, b) \<Rightarrow> (Inl e, {BufStruct})
                 | (Inr v, b) \<Rightarrow> (Inr v, {}))))"

subsection \<open>The counting sink\<close>

text \<open>
  Modelled from the spec: the C source of the counting sink behind
  \<open>calc_serialized_size\<close> (the spec's \<open>measure\<close>) is not among the source files; the
  README only names the function. The spec gives the sink one unsigned field \<open>total\<close> and
  three operations: \<open>append_byte(_)\<close> is \<open>total += 1\<close>, \<open>append_bytes(_, n)\<close> is
  \<open>total += n\<close>, \<open>finalize()\<close> returns \<open>total\<close>; \<open>measure\<close> is "identical to pack
  but backed by CountingSink" and returns only the final count. No byte storage exists,
  so the call owns no heap block at any time.
\<close>

record counting_sink =
  total :: nat

definition sink_append_byte :: "counting_sink \<Rightarrow> int \<Rightarrow> counting_sink" where
  "sink_append_byte k c = k\<lparr>total := total k + 1\<rparr>"

definition sink_append_bytes :: "counting_sink \<Rightarrow> byte list \<Rightarrow> int \<Rightarrow> counting_sink" where
  "sink_append_bytes k src n = k\<lparr>total := total k + nat n\<rparr>"

definition sink_finalize :: "counting_sink \<Rightarrow> nat" where
  "sink_finalize k = total k"

fun sink_serialize :: "wcall list \<Rightarrow> counting_sink \<Rightarrow> error + counting_sink" where
  "sink_serialize [] k = Inr k"
| "sink_serialize (WriteByte c # cs) k = sink_serialize cs (sink_append_byte k c)"
| "sink_serialize (WriteBytes src n # cs) k = sink_serialize cs (sink_append_bytes k src n)"
| "sink_serialize (EncodeError # cs) k = Inl EngineEncodingError"

definition calc_serialized_size :: "wcall list \<Rightarrow> (error + nat) \<times> blk set" where
  "calc_serialized_size robj =
     (case sink_serialize robj \<lparr>total = 0\<rparr> of
        Inl e \<Rightarrow> (Inl e, {})
      | Inr k \<Rightarrow> (Inr (sink_finalize k), {}))"

subsection \<open>Invariants and the byte stream of a call sequence\<close>

text \<open>The invariant of the data model: the cursor lies between 0 and the length field.\<close>

definition position_inv :: "buffer \<Rightarrow> bool" where
  "position_inv b \<longleftrightarrow> 0 \<le> pos b \<and> pos b \<le> length_buffer b"

text \<open>
  A well-formed buffer: the cursor is in range, the length field is the size of the block
  behind \<open>data\<close> and does not exceed \<open>R_XLEN_T_MAX\<close>. A writer has a positive capacity
  and has written every byte below its cursor; a reader views initialised bytes only.
\<close>

definition buffer_ok :: "buffer \<Rightarrow> bool" where
  "buffer_ok b \<longleftrightarrow>
     0 \<le> pos b \<and> pos b \<le> length_buffer b \<and> length_buffer b \<le> R_XLEN_T_MAX
     \<and> int (length (data b)) = length_buffer b"

definition writer_ok :: "wstate \<Rightarrow> bool" where
  "writer_ok s \<longleftrightarrow>
     buffer_ok (buf s) \<and> 0 < length_buffer (buf s)
     \<and> list_all (\<lambda>c. c \<noteq> None) (take (nat (pos (buf s))) (data (buf s)))"

definition reader_ok :: "buffer \<Rightarrow> bool" where
  "reader_ok b \<longleftrightarrow> buffer_ok b \<and> list_all (\<lambda>c. c \<noteq> None) (data b)"

text \<open>The committed content of a buffer: the cells below the cursor.\<close>

definition committed :: "buffer \<Rightarrow> cell list" where
  "committed b = take (nat (pos b)) (data b)"

text \<open>The bytes one write call hands over, and their number as the callback receives it.\<close>

fun call_bytes :: "wcall \<Rightarrow> byte list" where
  "call_bytes (WriteByte c) = [word_of_int c]"
| "call_bytes (WriteBytes src n) = take (nat n) src"
| "call_bytes EncodeError = []"

fun call_count :: "wcall \<Rightarrow> int" where
  "call_count (WriteByte c) = 1"
| "call_count (WriteBytes src n) = n"
| "call_count EncodeError = 0"

text \<open>
  A call the callbacks can serve: \<open>write_bytes\<close> receives a length that is not negative
  and a source holding at least that many bytes; \<open>EncodeError\<close> is the engine giving up
  on the value.
\<close>

fun call_ok :: "wcall \<Rightarrow> bool" where
  "call_ok (WriteByte c) = True"
| "call_ok (WriteBytes src n) = (0 \<le> n \<and> n \<le> int (length src))"
| "call_ok EncodeError = False"

definition emitted :: "wcall list \<Rightarrow> byte list" where
  "emitted cs = concat (map call_bytes cs)"

definition appended :: "wcall list \<Rightarrow> int" where
  "appended cs = sum_list (map call_count cs)"

text \<open>Writing a run of bytes one call per byte.\<close>

definition bytewise :: "byte list \<Rightarrow> wcall list" where
  "bytewise bs = map (\<lambda>x. WriteByte (uint x)) bs"

text \<open>
  The assignment \<open>buf->data[buf->pos++] = x\<close> on its own, and what a caller can observe
  of a write: the error, or the state the call leaves behind.
\<close>

definition stored :: "wstate \<Rightarrow> byte \<Rightarrow> wstate" where
  "stored s x =
     s\<lparr>buf := (buf s)\<lparr>data := (data (buf s))[nat (pos (buf s)) := Some x],
                       pos := pos (buf s) + 1\<rparr>\<rparr>"

text \<open>The two statements \<open>memcpy(buf->data + buf->pos, src, n); buf->pos += n;\<close> on
  their own.\<close>

definition copied :: "wstate \<Rightarrow> byte list \<Rightarrow> int \<Rightarrow> wstate" where
  "copied t src n =
     t\<lparr>buf := (buf t)\<lparr>data := take (nat (pos (buf t))) (data (buf t))
                               @ map Some (take (nat n) src)
                               @ drop (nat (pos (buf t) + n)) (data (buf t)),
                       pos := pos (buf t) + n\<rparr>\<rparr>"

definition outcome :: "((error + unit) \<times> wstate) option \<Rightarrow> (error + wstate) option" where
  "outcome r =
     (case r of
        None \<Rightarrow> None
      | Some (Inl e, s) \<Rightarrow> Some (Inl e)
      | Some (Inr u, s) \<Rightarrow> Some (Inr s))"

text \<open>A writer whose two bytes of capacity are both used: the next append has to grow
  the block.\<close>

definition full_writer :: wstate where
  "full_writer =
     \<lparr>buf = \<lparr>length_buffer = 2, pos = 2, data = [Some 1, Some 2]\<rparr>,
      live = {BufStruct, BufData}\<rparr>"

text \<open>
  What a decoder returns when it consumes a byte sequence directly, with no buffer in
  between: the reference against which \<open>unpack\<close> is compared.
\<close>

primrec decode_stream :: "'v decoder \<Rightarrow> byte list \<Rightarrow> 'v option" where
  "decode_stream (Return v) = (\<lambda>bs. Some v)"
| "decode_stream DecodeError = (\<lambda>bs. None)"
| "decode_stream (ReadByte k) =
     (\<lambda>bs. case bs of [] \<Rightarrow> None | x # r \<Rightarrow> decode_stream (k (uint x)) r)"
| "decode_stream (ReadBytes n k) =
     (\<lambda>bs. if 0 \<le> n \<and> nat n \<le> length bs
           then decode_stream (k (take (nat n) bs)) (drop (nat n) bs)
           else None)"

section \<open>The read callbacks\<close>

lemma list_all_nth_Some:
  "list_all (\<lambda>c. c \<noteq> None) xs \<Longrightarrow> i < length xs \<Longrightarrow> \<exists>x. xs ! i = Some x"
  by (auto simp: list_all_length)

lemma bytes_at_reader:
  assumes "reader_ok b" "0 \<le> n" "pos b + n \<le> length_buffer b"
  shows "bytes_at (data b) (pos b) n = Some (map the (take (nat n) (drop (nat (pos b)) (data b))))"
proof -
  have "list_all (\<lambda>c. c \<noteq> None) (take (nat n) (drop (nat (pos b)) (data b)))"
    using assms(1) by (auto simp: reader_ok_def list_all_iff dest: in_set_takeD in_set_dropD)
  then show ?thesis
    using assms by (simp add: bytes_at_def reader_ok_def buffer_ok_def)
qed

text \<open>
  Claim C5. On a well-formed reader, \<open>read_byte\<close> raises \<open>BufferUnderrun\<close> exactly when
  the cursor is at the end, and otherwise returns the byte under the cursor and moves the
  cursor by one; \<open>read_bytes n\<close> raises \<open>BufferUnderrun\<close> exactly when \<open>pos + n\<close>
  exceeds the length; a failing call leaves the buffer as it was and delivers no bytes; a
  succeeding call delivers the \<open>n\<close> bytes from the cursor on and moves the cursor by
  \<open>n\<close>; \<open>n = 0\<close> succeeds and changes nothing.
\<close>

theorem read_callbacks_underrun:
  assumes "reader_ok b"
  shows "(fst (read_byte b) = Inl BufferUnderrun \<longleftrightarrow> pos b = length_buffer b)
       \<and> (pos b = length_buffer b \<longrightarrow> read_byte b = (Inl BufferUnderrun, b))
       \<and> (pos b \<noteq> length_buffer b \<longrightarrow>
            (\<exists>x. data b ! nat (pos b) = Some x
                \<and> read_byte b = (Inr (uint x), b\<lparr>pos := pos b + 1\<rparr>)))
       \<and> (fst (read_bytes b n) = Inl BufferUnderrun \<longleftrightarrow> pos b + n > length_buffer b)
       \<and> (pos b + n > length_buffer b \<longrightarrow> read_bytes b n = (Inl BufferUnderrun, b))
       \<and> (0 \<le> n \<and> pos b + n \<le> length_buffer b \<longrightarrow>
            read_bytes b n =
              (Inr (map the (take (nat n) (drop (nat (pos b)) (data b)))), b\<lparr>pos := pos b + n\<rparr>))
       \<and> read_bytes b 0 = (Inr [], b)"
proof -
  have ok: "0 \<le> pos b" "pos b \<le> length_buffer b" "int (length (data b)) = length_buffer b"
    and init: "list_all (\<lambda>c. c \<noteq> None) (data b)"
    using assms by (simp_all add: reader_ok_def buffer_ok_def)
  have rb: "pos b \<noteq> length_buffer b \<Longrightarrow>
      \<exists>x. data b ! nat (pos b) = Some x \<and> read_byte b = (Inr (uint x), b\<lparr>pos := pos b + 1\<rparr>)"
  proof -
    assume ne: "pos b \<noteq> length_buffer b"
    with ok have lt: "nat (pos b) < length (data b)" by linarith
    from list_all_nth_Some [OF init lt] obtain x where x: "data b ! nat (pos b) = Some x" ..
    with ne ok show ?thesis by (auto simp: read_byte_def)
  qed
  have c1: "fst (read_byte b) = Inl BufferUnderrun \<longleftrightarrow> pos b = length_buffer b"
  proof (cases "pos b = length_buffer b")
    case True then show ?thesis by (simp add: read_byte_def)
  next
    case False
    from rb [OF False] show ?thesis using False by auto
  qed
  have c2: "pos b = length_buffer b \<longrightarrow> read_byte b = (Inl BufferUnderrun, b)"
    by (simp add: read_byte_def)
  have c4: "fst (read_bytes b n) = Inl BufferUnderrun \<longleftrightarrow> pos b + n > length_buffer b"
    by (auto simp: read_bytes_def split: option.splits)
  have c5: "pos b + n > length_buffer b \<longrightarrow> read_bytes b n = (Inl BufferUnderrun, b)"
    by (simp add: read_bytes_def)
  have c6: "0 \<le> n \<and> pos b + n \<le> length_buffer b \<longrightarrow>
            read_bytes b n =
              (Inr (map the (take (nat n) (drop (nat (pos b)) (data b)))), b\<lparr>pos := pos b + n\<rparr>)"
    using bytes_at_reader [OF assms, of n] by (auto simp: read_bytes_def)
  have c7: "read_bytes b 0 = (Inr [], b)"
    using bytes_at_reader [OF assms, of 0] ok by (simp add: read_bytes_def)
  from c1 c2 rb c4 c5 c6 c7 show ?thesis by blast
qed

lemma reader_over_ok: "int (length vec) \<le> R_XLEN_T_MAX \<Longrightarrow> reader_ok (reader_over vec)"
  by (simp add: reader_ok_def buffer_ok_def reader_over_def list_all_iff)

theorem read_callbacks_underrun_witness:
  "reader_ok (reader_over [7, 8, 9])
   \<and> read_byte (reader_over [7, 8, 9]) = (Inr 7, (reader_over [7, 8, 9])\<lparr>pos := 1\<rparr>)
   \<and> read_bytes (reader_over [7, 8, 9]) 2 = (Inr [7, 8], (reader_over [7, 8, 9])\<lparr>pos := 2\<rparr>)
   \<and> read_bytes (reader_over [7, 8, 9]) 4 = (Inl BufferUnderrun, reader_over [7, 8, 9])
   \<and> read_byte ((reader_over [7, 8, 9])\<lparr>pos := 3\<rparr>) = (Inl BufferUnderrun, (reader_over [7, 8, 9])\<lparr>pos := 3\<rparr>)"
proof -
  have ok: "reader_ok (reader_over [7, 8, 9])"
    by (simp add: reader_ok_def buffer_ok_def reader_over_def R_XLEN_T_MAX_def)
  have ok3: "reader_ok ((reader_over [7, 8, 9])\<lparr>pos := 3\<rparr>)"
    by (simp add: reader_ok_def buffer_ok_def reader_over_def R_XLEN_T_MAX_def)
  show ?thesis
    using ok read_callbacks_underrun [OF ok, of 2] read_callbacks_underrun [OF ok, of 4]
      read_callbacks_underrun [OF ok3, of 0]
    by (simp add: reader_over_def)
qed

section \<open>Growth steps and the write callbacks\<close>

lemma double_of_xlen_exact: "\<bar>n\<bar> \<le> 2 ^ 53 \<Longrightarrow> double_of_xlen n = n"
  by (simp add: double_of_xlen_def)

lemma size_t_of_id: "0 \<le> n \<Longrightarrow> n < 2 ^ 64 \<Longrightarrow> size_t_of n = nat n"
  by (simp add: size_t_of_def)

text \<open>The closed form of one growth step on a well-formed writer.\<close>

lemma expand_buffer_writer:
  assumes "writer_ok s"
  shows "expand_buffer ev s =
     (let b = (buf s)\<lparr>length_buffer := 2 * length_buffer (buf s)\<rparr> in
      if 2 * length_buffer (buf s) > R_XLEN_T_MAX then (Inl CapacityExceeded, s\<lparr>buf := b\<rparr>)
      else if \<not> malloc_ok ev (nat (2 * length_buffer (buf s)))
        then (Inl AllocationFailure, s\<lparr>buf := b, live := live s - {BufData} - {BufStruct}\<rparr>)
        else (Inr (), s\<lparr>buf := b\<lparr>data := data (buf s) @ replicate (length (data (buf s))) None\<rparr>\<rparr>))"
proof -
  let ?l = "length_buffer (buf s)"
  have l: "0 < ?l" "?l \<le> 4503599627370496" "int (length (data (buf s))) = ?l"
    using assms by (simp_all add: writer_ok_def buffer_ok_def R_XLEN_T_MAX_def)
  then have d: "double_of_xlen ?l = ?l"
    by (intro double_of_xlen_exact) simp
  have st: "size_t_of (2 * ?l) = nat (2 * ?l)"
    using l by (intro size_t_of_id) simp_all
  have len: "nat (2 * ?l) = 2 * length (data (buf s))"
    using l by linarith
  have re: "realloc_cells (data (buf s)) (nat (2 * ?l)) = data (buf s) @ replicate (length (data (buf s))) None"
    unfolding len by (simp add: realloc_cells_def)
  show ?thesis
    using l by (simp add: expand_buffer_def d st re Let_def)
qed

lemma expand_buffer_writer_ok:
  assumes "writer_ok s" "expand_buffer ev s = (Inr u, s')"
  shows "writer_ok s'"
    and "length_buffer (buf s') = 2 * length_buffer (buf s)"
    and "pos (buf s') = pos (buf s)"
    and "live s' = live s"
    and "data (buf s') = data (buf s) @ replicate (length (data (buf s))) None"
proof -
  have l: "0 < length_buffer (buf s)" "int (length (data (buf s))) = length_buffer (buf s)"
      "0 \<le> pos (buf s)" "pos (buf s) \<le> length_buffer (buf s)"
    using assms(1) by (simp_all add: writer_ok_def buffer_ok_def)
  from assms(2) have
    s': "s' = s\<lparr>buf := (buf s)\<lparr>length_buffer := 2 * length_buffer (buf s),
                data := data (buf s) @ replicate (length (data (buf s))) None\<rparr>\<rparr>"
    and le: "2 * length_buffer (buf s) \<le> R_XLEN_T_MAX"
    unfolding expand_buffer_writer [OF assms(1)] by (auto simp: Let_def split: if_splits)
  show "length_buffer (buf s') = 2 * length_buffer (buf s)" "pos (buf s') = pos (buf s)"
       "live s' = live s" "data (buf s') = data (buf s) @ replicate (length (data (buf s))) None"
    by (simp_all add: s')
  have "nat (pos (buf s)) \<le> length (data (buf s))" using l by linarith
  then show "writer_ok s'"
    using assms(1) l le by (simp add: s' writer_ok_def buffer_ok_def)
qed

lemma expand_buffer_pos: "expand_buffer ev s = (r, s') \<Longrightarrow> pos (buf s') = pos (buf s)"
  by (auto simp: expand_buffer_def Let_def split: if_splits)

lemma expand_while_partial:
  assumes "expand_while cond ev s = Some y"
  shows "pos (buf (snd y)) = pos (buf s) \<and> (\<forall>u. fst y = Inr u \<longrightarrow> \<not> cond (buf (snd y)))"
proof (rule expand_while.raw_induct
    [where P = "\<lambda>cond ev s y. pos (buf (snd y)) = pos (buf s)
                  \<and> (\<forall>u. fst y = Inr u \<longrightarrow> \<not> cond (buf (snd y)))", OF _ assms], goal_cases)
  case (1 expand_while cond ev s y)
  show ?case
  proof (cases "cond (buf s)")
    case False
    with 1(2) show ?thesis by auto
  next
    case True
    obtain r s' where e: "expand_buffer ev s = (r, s')" by (cases "expand_buffer ev s")
    show ?thesis
    proof (cases r)
      case (Inl err)
      with True e 1(2) have "y = (Inl err, s')" by simp
      with expand_buffer_pos [OF e] show ?thesis by simp
    next
      case (Inr u)
      with True e 1(2) have "expand_while cond ev s' = Some y" by simp
      from 1(1) [OF this] expand_buffer_pos [OF e] show ?thesis by simp
    qed
  qed
qed

lemmas expand_while_pos = expand_while_partial [THEN conjunct1]

lemma expand_while_exit:
  "expand_while cond ev s = Some (Inr u, t) \<Longrightarrow> \<not> cond (buf t)"
  using expand_while_partial [of cond ev s "(Inr u, t)"] by simp

text \<open>Induction along the growth steps of a well-formed writer: the capacity doubles and
  stays below the limit, so the distance to the limit shrinks.\<close>

lemma writer_induct [consumes 1, case_names step]:
  assumes "writer_ok s"
    and step: "\<And>s. writer_ok s \<Longrightarrow>
                 (\<And>u s'. expand_buffer ev s = (Inr u, s') \<Longrightarrow> writer_ok s' \<Longrightarrow> P s') \<Longrightarrow> P s"
  shows "P s"
  using assms(1)
proof (induction "nat (R_XLEN_T_MAX - length_buffer (buf s))" arbitrary: s rule: less_induct)
  case less
  show ?case
  proof (rule step [OF less.prems])
    fix u s'
    assume e: "expand_buffer ev s = (Inr u, s')"
    from expand_buffer_writer_ok [OF less.prems e]
    have ok': "writer_ok s'" and l: "length_buffer (buf s') = 2 * length_buffer (buf s)"
      by simp_all
    have "0 < length_buffer (buf s)" "length_buffer (buf s') \<le> R_XLEN_T_MAX"
      using less.prems ok' by (simp_all add: writer_ok_def buffer_ok_def)
    with l have "nat (R_XLEN_T_MAX - length_buffer (buf s')) < nat (R_XLEN_T_MAX - length_buffer (buf s))"
      by linarith
    from less.hyps [OF this ok'] show "P s'" .
  qed
qed

lemma expand_while_returns:
  assumes "writer_ok s"
  shows "\<exists>r. expand_while cond ev s = Some r"
  using assms
proof (induction s rule: writer_induct [where ev = ev])
  case (step s)
  show ?case
  proof (cases "cond (buf s)")
    case False
    then show ?thesis by (subst expand_while.simps) simp
  next
    case True
    obtain r s' where e: "expand_buffer ev s = (r, s')" by (cases "expand_buffer ev s")
    show ?thesis
    proof (cases r)
      case (Inl err)
      with True e show ?thesis by (subst expand_while.simps) simp
    next
      case (Inr u)
      with step.IH [of u s'] e obtain r' where "expand_while cond ev s' = Some r'"
        using expand_buffer_writer_ok(1) [OF step.hyps] by blast
      with True e Inr show ?thesis by (subst expand_while.simps) simp
    qed
  qed
qed

text \<open>On a well-formed writer a loop that succeeds has appended indeterminate cells to
  the block, and nothing else.\<close>

lemma expand_while_writer:
  assumes "writer_ok s" "expand_while cond ev s = Some (Inr u, t)"
  shows "writer_ok t \<and> live t = live s \<and> pos (buf t) = pos (buf s)
       \<and> (\<exists>k. data (buf t) = data (buf s) @ replicate k None)
       \<and> (\<exists>j. length_buffer (buf t) = length_buffer (buf s) * 2 ^ j)"
  using assms
proof (induction s rule: writer_induct [where ev = ev])
  case (step s)
  show ?case
  proof (cases "cond (buf s)")
    case False
    with step.prems have "t = s" by (subst (asm) expand_while.simps) simp
    then show ?thesis using step.hyps by (auto intro: exI [of _ 0])
  next
    case True
    obtain r s' where e: "expand_buffer ev s = (r, s')" by (cases "expand_buffer ev s")
    show ?thesis
    proof (cases r)
      case (Inl err)
      with True e step.prems show ?thesis by (subst (asm) expand_while.simps) simp
    next
      case (Inr v)
      with True e step.prems have w: "expand_while cond ev s' = Some (Inr u, t)"
        by (subst (asm) expand_while.simps) simp
      note f = expand_buffer_writer_ok [OF step.hyps e [unfolded Inr]]
      from step.IH [OF e [unfolded Inr] f(1) w]
      obtain k j where t: "writer_ok t" "live t = live s'" "pos (buf t) = pos (buf s')"
        "data (buf t) = data (buf s') @ replicate k None"
        "length_buffer (buf t) = length_buffer (buf s') * 2 ^ j" by blast
      have "data (buf t) = data (buf s) @ replicate (length (data (buf s)) + k) None"
        using t(4) f(5) by (simp add: replicate_add)
      moreover have "length_buffer (buf t) = length_buffer (buf s) * 2 ^ Suc j"
        using t(5) f(2) by simp
      ultimately show ?thesis using t(1,2,3) f(3,4) by metis
    qed
  qed
qed

lemma stored_writer:
  assumes "writer_ok t" "pos (buf t) < length_buffer (buf t)"
  shows "writer_ok (stored t x)"
    and "committed (buf (stored t x)) = committed (buf t) @ [Some x]"
    and "pos (buf (stored t x)) = pos (buf t) + 1"
    and "live (stored t x) = live t"
    and "length_buffer (buf (stored t x)) = length_buffer (buf t)"
    and "length (data (buf (stored t x))) = length (data (buf t))"
proof -
  let ?p = "nat (pos (buf t))"
  let ?d = "data (buf t)"
  define D where "D = ?d[?p := Some x]"
  have l: "0 \<le> pos (buf t)" "int (length ?d) = length_buffer (buf t)"
    "list_all (\<lambda>c. c \<noteq> None) (take ?p ?d)" "length_buffer (buf t) \<le> R_XLEN_T_MAX"
    "0 < length_buffer (buf t)"
    using assms(1) by (simp_all add: writer_ok_def buffer_ok_def)
  with assms(2) have lt: "?p < length ?d" by linarith
  have n1: "nat (pos (buf t) + 1) = ?p + 1" using l(1) by linarith
  have b: "buf (stored t x) = (buf t)\<lparr>data := D, pos := pos (buf t) + 1\<rparr>"
    by (simp add: stored_def D_def)
  have len: "length D = length ?d" by (simp add: D_def)
  have tk: "take (?p + 1) D = take ?p ?d @ [Some x]"
    using lt by (simp add: D_def take_Suc_conv_app_nth)
  have al: "list_all (\<lambda>c. c \<noteq> None) (take ?p ?d @ [Some x])"
    using l(3) by (auto simp: list_all_iff)
  have cm: "committed ((buf t)\<lparr>data := D, pos := pos (buf t) + 1\<rparr>) = take (?p + 1) D"
    by (simp add: committed_def n1)
  show "committed (buf (stored t x)) = committed (buf t) @ [Some x]"
    unfolding b cm tk by (simp add: committed_def)
  show "length (data (buf (stored t x))) = length (data (buf t))"
    by (simp add: b len)
  have "0 \<le> pos (buf t) + 1" using l(1) by simp
  moreover have "pos (buf t) + 1 \<le> length_buffer (buf t)" using assms(2) by simp
  moreover have "int (length D) = length_buffer (buf t)" using len l(2) by simp
  moreover have "list_all (\<lambda>c. c \<noteq> None) (take (nat (pos (buf t) + 1)) D)"
    unfolding n1 tk by (rule al)
  ultimately show "writer_ok (stored t x)"
    unfolding writer_ok_def buffer_ok_def b
    using l(4,5) by simp
  show "pos (buf (stored t x)) = pos (buf t) + 1" "live (stored t x) = live t"
    "length_buffer (buf (stored t x)) = length_buffer (buf t)"
    by (simp_all add: stored_def)
qed

lemma write_byte_cases:
  "write_byte ev s c =
     (case expand_while (\<lambda>b. length_buffer b \<le> pos b) ev s of
        None \<Rightarrow> None
      | Some (Inl e, t) \<Rightarrow> Some (Inl e, t)
      | Some (Inr u, t) \<Rightarrow>
          if 0 \<le> pos (buf t) \<and> pos (buf t) < int (length (data (buf t)))
          then Some (Inr (), stored t (word_of_int c))
          else Some (Inl Undefined, t))"
  by (simp add: write_byte_def stored_def Let_def split: option.splits prod.splits sum.splits)

lemma write_byte_success:
  assumes "writer_ok s" "write_byte ev s c = Some (Inr u, s')"
  shows "\<exists>t k. expand_while (\<lambda>b. length_buffer b \<le> pos b) ev s = Some (Inr (), t)
    \<and> s' = stored t (word_of_int c) \<and> writer_ok t
    \<and> pos (buf t) = pos (buf s) \<and> pos (buf t) < length_buffer (buf t)
    \<and> live t = live s \<and> data (buf t) = data (buf s) @ replicate k None"
proof -
  let ?w = "expand_while (\<lambda>b. length_buffer b \<le> pos b) ev s"
  from expand_while_returns [OF assms(1)] obtain x t where w: "?w = Some (x, t)"
    by (metis surj_pair)
  show ?thesis
  proof (cases x)
    case (Inl e)
    with w assms(2) show ?thesis by (simp add: write_byte_cases)
  next
    case (Inr v)
    with w have w': "?w = Some (Inr (), t)" by simp
    from assms(2) have s': "s' = stored t (word_of_int c)"
      unfolding write_byte_cases w' by (simp split: if_splits)
    from expand_while_writer [OF assms(1) w'] obtain k where
      f: "writer_ok t" "live t = live s" "pos (buf t) = pos (buf s)"
         "data (buf t) = data (buf s) @ replicate k None" by blast
    from expand_while_exit [OF w'] have lt: "pos (buf t) < length_buffer (buf t)" by simp
    from w' s' f lt show ?thesis by blast
  qed
qed

lemma write_byte_returns:
  assumes "writer_ok s"
  shows "\<exists>r. write_byte ev s c = Some r"
proof -
  from expand_while_returns [OF assms]
  obtain x t where "expand_while (\<lambda>b. length_buffer b \<le> pos b) ev s = Some (x, t)"
    by (metis surj_pair)
  then show ?thesis
    unfolding write_byte_cases by (cases x) simp_all
qed

lemma committed_grown:
  assumes "writer_ok s" "pos (buf t) = pos (buf s)" "data (buf t) = data (buf s) @ replicate k None"
  shows "committed (buf t) = committed (buf s)"
proof -
  have "nat (pos (buf s)) \<le> length (data (buf s))"
    using assms(1) unfolding writer_ok_def buffer_ok_def by linarith
  then show ?thesis
    unfolding committed_def assms(2,3) by simp
qed

lemma write_byte_writer:
  assumes "writer_ok s" "write_byte ev s c = Some (Inr u, s')"
  shows "writer_ok s'"
    and "pos (buf s') = pos (buf s) + 1"
    and "committed (buf s') = committed (buf s) @ [Some (word_of_int c)]"
    and "live s' = live s"
    and "length (data (buf s)) \<le> length (data (buf s'))"
proof -
  from write_byte_success [OF assms] obtain t k where
    t: "s' = stored t (word_of_int c)" "writer_ok t"
    "pos (buf t) = pos (buf s)" "pos (buf t) < length_buffer (buf t)" "live t = live s"
    "data (buf t) = data (buf s) @ replicate k None"
    by blast
  note st = stored_writer [OF t(2,4), of "word_of_int c"]
  show "committed (buf s') = committed (buf s) @ [Some (word_of_int c)]"
    unfolding t(1) st(2) committed_grown [OF assms(1) t(3,6)] ..
  show "writer_ok s'" unfolding t(1) by (rule st(1))
  show "pos (buf s') = pos (buf s) + 1" unfolding t(1) st(3) t(3) ..
  show "live s' = live s" unfolding t(1) st(4) t(5) ..
  show "length (data (buf s)) \<le> length (data (buf s'))"
    unfolding t(1) st(6) t(6) by simp
qed

lemma write_bytes_cases:
  "write_bytes ev s src n =
     (case expand_while (\<lambda>b. length_buffer b < pos b + n) ev s of
        None \<Rightarrow> None
      | Some (Inl e, t) \<Rightarrow> Some (Inl e, t)
      | Some (Inr u, t) \<Rightarrow>
          if 0 \<le> n \<and> n \<le> int (length src) \<and> 0 \<le> pos (buf t)
             \<and> pos (buf t) + n \<le> int (length (data (buf t)))
          then Some (Inr (), copied t src n)
          else Some (Inl Undefined, t))"
  by (simp add: write_bytes_def copied_def memcpy_cells_def Let_def
      split: option.splits prod.splits sum.splits)

lemma copied_writer:
  assumes "writer_ok t" "0 \<le> n" "n \<le> int (length src)" "pos (buf t) + n \<le> length_buffer (buf t)"
  shows "writer_ok (copied t src n)"
    and "committed (buf (copied t src n)) = committed (buf t) @ map Some (take (nat n) src)"
    and "pos (buf (copied t src n)) = pos (buf t) + n"
    and "live (copied t src n) = live t"
    and "length_buffer (buf (copied t src n)) = length_buffer (buf t)"
    and "length (data (buf (copied t src n))) = length (data (buf t))"
proof -
  let ?p = "nat (pos (buf t))"
  let ?d = "data (buf t)"
  define D where "D = take ?p ?d @ map Some (take (nat n) src) @ drop (?p + nat n) ?d"
  have l: "0 \<le> pos (buf t)" "int (length ?d) = length_buffer (buf t)"
    "list_all (\<lambda>c. c \<noteq> None) (take ?p ?d)" "length_buffer (buf t) \<le> R_XLEN_T_MAX"
    "0 < length_buffer (buf t)"
    using assms(1) by (simp_all add: writer_ok_def buffer_ok_def)
  have p: "?p \<le> length ?d" "nat (pos (buf t) + n) = ?p + nat n" "nat n \<le> length src"
    "?p + nat n \<le> length ?d"
    using l assms(2,3,4) by linarith+
  have b: "buf (copied t src n) = (buf t)\<lparr>data := D, pos := pos (buf t) + n\<rparr>"
    by (simp add: copied_def D_def p(2))
  have len: "length D = length ?d"
    using p(1,3,4) by (simp add: D_def min_absorb2)
  have tk: "take (?p + nat n) D = take ?p ?d @ map Some (take (nat n) src)"
    using p(1,3,4) by (simp add: D_def min_absorb2)
  have al: "list_all (\<lambda>c. c \<noteq> None) (take ?p ?d @ map Some (take (nat n) src))"
    using l(3) by (auto simp: list_all_iff)
  have cm: "committed ((buf t)\<lparr>data := D, pos := pos (buf t) + n\<rparr>) = take (?p + nat n) D"
    by (simp add: committed_def p(2))
  show "committed (buf (copied t src n)) = committed (buf t) @ map Some (take (nat n) src)"
    unfolding b cm tk by (simp add: committed_def)
  show "length (data (buf (copied t src n))) = length (data (buf t))"
    by (simp add: b len)
  have "0 \<le> pos (buf t) + n" using l(1) assms(2) by simp
  moreover have "int (length D) = length_buffer (buf t)" using len l(2) by simp
  moreover have "list_all (\<lambda>c. c \<noteq> None) (take (nat (pos (buf t) + n)) D)"
    unfolding p(2) tk by (rule al)
  ultimately show "writer_ok (copied t src n)"
    unfolding writer_ok_def buffer_ok_def b
    using l(4,5) assms(4) by simp
  show "pos (buf (copied t src n)) = pos (buf t) + n" "live (copied t src n) = live t"
    "length_buffer (buf (copied t src n)) = length_buffer (buf t)"
    by (simp_all add: copied_def)
qed

lemma write_bytes_success:
  assumes "writer_ok s" "write_bytes ev s src n = Some (Inr u, s')"
  shows "\<exists>t k. expand_while (\<lambda>b. length_buffer b < pos b + n) ev s = Some (Inr (), t)
    \<and> s' = copied t src n \<and> writer_ok t
    \<and> pos (buf t) = pos (buf s) \<and> pos (buf t) + n \<le> length_buffer (buf t)
    \<and> 0 \<le> n \<and> n \<le> int (length src)
    \<and> live t = live s \<and> data (buf t) = data (buf s) @ replicate k None"
proof -
  let ?w = "expand_while (\<lambda>b. length_buffer b < pos b + n) ev s"
  from expand_while_returns [OF assms(1)] obtain x t where w: "?w = Some (x, t)"
    by (metis surj_pair)
  show ?thesis
  proof (cases x)
    case (Inl e)
    with w assms(2) show ?thesis by (simp add: write_bytes_cases)
  next
    case (Inr v)
    with w have w': "?w = Some (Inr (), t)" by simp
    from assms(2) have s': "s' = copied t src n" and n: "0 \<le> n" "n \<le> int (length src)"
      unfolding write_bytes_cases w' by (simp_all split: if_splits)
    from expand_while_writer [OF assms(1) w'] obtain k where
      f: "writer_ok t" "live t = live s" "pos (buf t) = pos (buf s)"
         "data (buf t) = data (buf s) @ replicate k None" by blast
    from expand_while_exit [OF w'] have lt: "pos (buf t) + n \<le> length_buffer (buf t)" by simp
    from w' s' f lt n show ?thesis by blast
  qed
qed

lemma write_bytes_returns:
  assumes "writer_ok s"
  shows "\<exists>r. write_bytes ev s src n = Some r"
proof -
  from expand_while_returns [OF assms]
  obtain x t where "expand_while (\<lambda>b. length_buffer b < pos b + n) ev s = Some (x, t)"
    by (metis surj_pair)
  then show ?thesis
    unfolding write_bytes_cases by (cases x) simp_all
qed

lemma write_bytes_writer:
  assumes "writer_ok s" "write_bytes ev s src n = Some (Inr u, s')"
  shows "writer_ok s'"
    and "pos (buf s') = pos (buf s) + n"
    and "committed (buf s') = committed (buf s) @ map Some (take (nat n) src)"
    and "live s' = live s"
    and "length (data (buf s)) \<le> length (data (buf s'))"
    and "0 \<le> n" and "n \<le> int (length src)"
proof -
  from write_bytes_success [OF assms] obtain t k where
    t: "s' = copied t src n" "writer_ok t"
    "pos (buf t) = pos (buf s)" "pos (buf t) + n \<le> length_buffer (buf t)"
    "0 \<le> n" "n \<le> int (length src)" "live t = live s"
    "data (buf t) = data (buf s) @ replicate k None"
    by blast
  note st = copied_writer [OF t(2,5,6,4)]
  show "committed (buf s') = committed (buf s) @ map Some (take (nat n) src)"
    unfolding t(1) st(2) committed_grown [OF assms(1) t(3,8)] ..
  show "writer_ok s'" unfolding t(1) by (rule st(1))
  show "pos (buf s') = pos (buf s) + n" unfolding t(1) st(3) t(3) ..
  show "live s' = live s" unfolding t(1) st(4) t(7) ..
  show "length (data (buf s)) \<le> length (data (buf s'))"
    unfolding t(1) st(6) t(8) by simp
  show "0 \<le> n" "n \<le> int (length src)" by fact+
qed

section \<open>Position and invariants\<close>

text \<open>What a returning write callback has done, on any state.\<close>

lemma write_byte_partial:
  assumes "write_byte ev s c = Some (r, s')"
  shows "(\<forall>e. r = Inl e \<longrightarrow> pos (buf s') = pos (buf s))
       \<and> (\<forall>u. r = Inr u \<longrightarrow>
            (\<exists>t. s' = stored t (word_of_int c) \<and> pos (buf t) = pos (buf s) \<and> 0 \<le> pos (buf t)
               \<and> pos (buf t) < int (length (data (buf t)))
               \<and> pos (buf t) < length_buffer (buf t)))"
proof -
  let ?w = "expand_while (\<lambda>b. length_buffer b \<le> pos b) ev s"
  from assms obtain x t where w: "?w = Some (x, t)"
    unfolding write_byte_cases by (cases ?w) auto
  note p = expand_while_pos [OF w, simplified]
  show ?thesis
  proof (cases x)
    case (Inl e)
    with assms w p show ?thesis unfolding write_byte_cases by auto
  next
    case (Inr v)
    with w have w': "?w = Some (Inr (), t)" by simp
    from expand_while_exit [OF w'] have lt: "pos (buf t) < length_buffer (buf t)" by simp
    from assms p lt show ?thesis
      unfolding write_byte_cases w' by (auto split: if_splits)
  qed
qed

lemma write_bytes_partial:
  assumes "write_bytes ev s src n = Some (r, s')"
  shows "(\<forall>e. r = Inl e \<longrightarrow> pos (buf s') = pos (buf s))
       \<and> (\<forall>u. r = Inr u \<longrightarrow>
            (\<exists>t. s' = copied t src n \<and> pos (buf t) = pos (buf s) \<and> 0 \<le> pos (buf t)
               \<and> 0 \<le> n \<and> n \<le> int (length src)
               \<and> pos (buf t) + n \<le> int (length (data (buf t)))
               \<and> pos (buf t) + n \<le> length_buffer (buf t)))"
proof -
  let ?w = "expand_while (\<lambda>b. length_buffer b < pos b + n) ev s"
  from assms obtain x t where w: "?w = Some (x, t)"
    unfolding write_bytes_cases by (cases ?w) auto
  note p = expand_while_pos [OF w, simplified]
  show ?thesis
  proof (cases x)
    case (Inl e)
    with assms w p show ?thesis unfolding write_bytes_cases by auto
  next
    case (Inr v)
    with w have w': "?w = Some (Inr (), t)" by simp
    from expand_while_exit [OF w'] have lt: "pos (buf t) + n \<le> length_buffer (buf t)" by simp
    from assms p lt show ?thesis
      unfolding write_bytes_cases w' by (auto split: if_splits)
  qed
qed

lemma stored_pos: "pos (buf (stored t x)) = pos (buf t) + 1"
  and stored_length: "length_buffer (buf (stored t x)) = length_buffer (buf t)"
  by (simp_all add: stored_def)

lemma copied_pos: "pos (buf (copied t src n)) = pos (buf t) + n"
  and copied_length: "length_buffer (buf (copied t src n)) = length_buffer (buf t)"
  by (simp_all add: copied_def)

lemma out_call_pos:
  assumes "out_call ev c s = Some (Inr u, s')"
  shows "pos (buf s') = pos (buf s) + call_count c"
proof (cases c)
  case (WriteByte x)
  with assms have "write_byte ev s x = Some (Inr u, s')" by (simp add: out_call_def)
  from write_byte_partial [OF this] show ?thesis using WriteByte by (auto simp: stored_pos)
next
  case (WriteBytes src n)
  with assms have "write_bytes ev s src n = Some (Inr u, s')" by (simp add: out_call_def)
  from write_bytes_partial [OF this] show ?thesis using WriteBytes by (auto simp: copied_pos)
next
  case EncodeError
  with assms show ?thesis by (simp add: out_call_def)
qed

lemma R_Serialize_pos:
  "R_Serialize ev cs s = Some (Inr u, s') \<Longrightarrow> pos (buf s') = pos (buf s) + appended cs"
proof (induction cs arbitrary: s)
  case Nil
  then show ?case by (simp add: appended_def)
next
  case (Cons c cs)
  from Cons.prems obtain v t where c: "out_call ev c s = Some (Inr v, t)"
    and r: "R_Serialize ev cs t = Some (Inr u, s')"
    by (auto split: option.splits sum.splits prod.splits)
  from Cons.IH [OF r] out_call_pos [OF c] show ?case by (simp add: appended_def)
qed

text \<open>Rounding to \<open>double\<close> loses less than half of a non-negative length.\<close>

lemma double_of_xlen_lower:
  assumes "0 \<le> n"
  shows "n \<le> 2 * double_of_xlen n"
proof (cases "n \<le> 2 ^ 53")
  case True
  with assms show ?thesis by (simp add: double_of_xlen_def)
next
  case False
  define e where "e = nat (bitlen n - 53)"
  define u :: int where "u = 2 ^ e"
  define q where "q = n div u"
  define r where "r = n mod u"
  have "(0::int) < 2 ^ 53" by simp
  with False have pos: "0 < n" by linarith
  have "e \<le> nat (bitlen n - 1)" unfolding e_def by simp
  then have "u \<le> 2 ^ nat (bitlen n - 1)" unfolding u_def by (rule power_increasing) simp
  with bitlen_bounds [OF pos] have un: "u \<le> n" by linarith
  have u0: "0 < u" unfolding u_def by simp
  from un u0 have q1: "1 \<le> q" unfolding q_def using pos_imp_zdiv_pos_iff [of u n] by linarith
  have nd: "n = q * u + r" unfolding q_def r_def by simp
  have ru: "r < u" unfolding r_def using u0 by simp
  have "u \<le> q * u" using q1 u0 by (simp add: mult_le_cancel_right1)
  with nd ru have n2: "n \<le> 2 * (q * u)" by linarith
  have "double_of_xlen n = (if 2 * r < u \<or> (2 * r = u \<and> even q) then q else q + 1) * u"
    using False pos by (simp add: double_of_xlen_def Let_def e_def u_def q_def r_def)
  then have "q * u \<le> double_of_xlen n"
    using u0 by (simp add: mult_le_cancel_right distrib_right)
  with n2 show ?thesis by linarith
qed

lemma expand_buffer_length:
  assumes "0 \<le> length_buffer (buf s)" "expand_buffer ev s = (Inr u, s')"
  shows "length_buffer (buf s) \<le> length_buffer (buf s')"
proof -
  from assms(2) have "length_buffer (buf s') = 2 * double_of_xlen (length_buffer (buf s))"
    by (auto simp: expand_buffer_def Let_def split: if_splits)
  with double_of_xlen_lower [OF assms(1)] show ?thesis by simp
qed

lemma read_byte_success:
  assumes "read_byte b = (Inr x, b')"
  shows "b' = b\<lparr>pos := pos b + 1\<rparr>" and "pos b < length_buffer b" and "0 \<le> pos b"
    and "pos b < int (length (data b))" and "\<exists>y. data b ! nat (pos b) = Some y \<and> x = uint y"
  using assms by (auto simp: read_byte_def split: if_splits option.splits)

lemma read_bytes_success:
  assumes "read_bytes b n = (Inr bs, b')"
  shows "b' = b\<lparr>pos := pos b + n\<rparr>" and "pos b + n \<le> length_buffer b" and "0 \<le> pos b"
    and "0 \<le> n" and "pos b + n \<le> int (length (data b))"
  using assms by (auto simp: read_bytes_def bytes_at_def split: if_splits option.splits)

text \<open>
  Claim C4. The invariant \<open>0 \<le> pos \<le> length\<close> holds for the buffer \<open>init_buffer\<close>
  creates (for a capacity that is not negative) and for the reader \<open>unpack_\<close> lays over
  its input, and every successful operation keeps it: \<open>write_byte\<close>, \<open>write_bytes\<close>,
  \<open>expand_buffer\<close>, \<open>read_byte\<close> and \<open>read_bytes\<close>.
\<close>

theorem position_invariant:
  "(0 \<le> nbytes \<and> init_buffer ev nbytes = (Inr b0, lv) \<longrightarrow> position_inv b0)
   \<and> position_inv (reader_over vec)
   \<and> (position_inv (buf s) \<and> write_byte ev s c = Some (Inr u, s') \<longrightarrow> position_inv (buf s'))
   \<and> (position_inv (buf s) \<and> write_bytes ev s src n = Some (Inr u, s') \<longrightarrow> position_inv (buf s'))
   \<and> (position_inv (buf s) \<and> expand_buffer ev s = (Inr u, s') \<longrightarrow> position_inv (buf s'))
   \<and> (position_inv b \<and> read_byte b = (Inr x, b') \<longrightarrow> position_inv b')
   \<and> (position_inv b \<and> read_bytes b n = (Inr bs, b') \<longrightarrow> position_inv b')"
proof -
  have i: "0 \<le> nbytes \<and> init_buffer ev nbytes = (Inr b0, lv) \<longrightarrow> position_inv b0"
    by (auto simp: init_buffer_def position_inv_def split: if_splits)
  have r: "position_inv (reader_over vec)"
    by (simp add: position_inv_def reader_over_def)
  have w1: "position_inv (buf s) \<and> write_byte ev s c = Some (Inr u, s') \<longrightarrow> position_inv (buf s')"
  proof
    assume a: "position_inv (buf s) \<and> write_byte ev s c = Some (Inr u, s')"
    from write_byte_partial [of ev s c "Inr u" s'] a obtain t where
      "s' = stored t (word_of_int c)" "0 \<le> pos (buf t)" "pos (buf t) < length_buffer (buf t)"
      by blast
    then show "position_inv (buf s')"
      by (simp add: position_inv_def stored_pos stored_length)
  qed
  have w2: "position_inv (buf s) \<and> write_bytes ev s src n = Some (Inr u, s') \<longrightarrow> position_inv (buf s')"
  proof
    assume a: "position_inv (buf s) \<and> write_bytes ev s src n = Some (Inr u, s')"
    from write_bytes_partial [of ev s src n "Inr u" s'] a obtain t where
      "s' = copied t src n" "0 \<le> pos (buf t)" "0 \<le> n" "pos (buf t) + n \<le> length_buffer (buf t)"
      by blast
    then show "position_inv (buf s')"
      by (simp add: position_inv_def copied_pos copied_length)
  qed
  have x: "position_inv (buf s) \<and> expand_buffer ev s = (Inr u, s') \<longrightarrow> position_inv (buf s')"
  proof
    assume a: "position_inv (buf s) \<and> expand_buffer ev s = (Inr u, s')"
    then have e: "expand_buffer ev s = (Inr u, s')" and p: "0 \<le> pos (buf s)"
      "pos (buf s) \<le> length_buffer (buf s)" by (simp_all add: position_inv_def)
    from p have "0 \<le> length_buffer (buf s)" by linarith
    from expand_buffer_length [OF this e] expand_buffer_pos [OF e] p
    show "position_inv (buf s')" by (simp add: position_inv_def)
  qed
  have r1: "position_inv b \<and> read_byte b = (Inr x, b') \<longrightarrow> position_inv b'"
  proof
    assume a: "position_inv b \<and> read_byte b = (Inr x, b')"
    then have "read_byte b = (Inr x, b')" ..
    from read_byte_success(1,2,3) [OF this] show "position_inv b'"
      by (simp add: position_inv_def)
  qed
  have r2: "position_inv b \<and> read_bytes b n = (Inr bs, b') \<longrightarrow> position_inv b'"
  proof
    assume a: "position_inv b \<and> read_bytes b n = (Inr bs, b')"
    then have "read_bytes b n = (Inr bs, b')" ..
    from read_bytes_success(1,2,3,4) [OF this] show "position_inv b'"
      by (simp add: position_inv_def)
  qed
  from i r w1 w2 x r1 r2 show ?thesis by blast
qed

lemma full_writer_ok: "writer_ok full_writer"
  by (simp add: writer_ok_def buffer_ok_def full_writer_def R_XLEN_T_MAX_def)

lemma full_writer_byte:
  "write_byte unlimited full_writer 65 =
     Some (Inr (), \<lparr>buf = \<lparr>length_buffer = 4, pos = 3, data = [Some 1, Some 2, Some 65, None]\<rparr>,
                    live = {BufStruct, BufData}\<rparr>)"
  by code_simp

lemma full_writer_bytes:
  "write_bytes unlimited full_writer [7, 8, 9] 3 =
     Some (Inr (), \<lparr>buf = \<lparr>length_buffer = 8, pos = 5,
                          data = [Some 1, Some 2, Some 7, Some 8, Some 9, None, None, None]\<rparr>,
                    live = {BufStruct, BufData}\<rparr>)"
  by code_simp

lemma full_writer_expand:
  "expand_buffer unlimited full_writer =
     (Inr (), \<lparr>buf = \<lparr>length_buffer = 4, pos = 2, data = [Some 1, Some 2, None, None]\<rparr>,
               live = {BufStruct, BufData}\<rparr>)"
  by code_simp

lemma init_buffer_two:
  "init_buffer unlimited 2 =
     (Inr \<lparr>length_buffer = 2, pos = 0, data = [None, None]\<rparr>, {BufStruct, BufData})"
  by code_simp

lemma reader_byte:
  "read_byte (reader_over [7, 8, 9]) =
     (Inr 7, \<lparr>length_buffer = 3, pos = 1, data = [Some 7, Some 8, Some 9]\<rparr>)"
  by code_simp

lemma reader_bytes:
  "read_bytes (reader_over [7, 8, 9]) 2 =
     (Inr [7, 8], \<lparr>length_buffer = 3, pos = 2, data = [Some 7, Some 8, Some 9]\<rparr>)"
  by code_simp

theorem position_invariant_witness:
  "init_buffer unlimited 2
     = (Inr \<lparr>length_buffer = 2, pos = 0, data = [None, None]\<rparr>, {BufStruct, BufData})
   \<and> position_inv \<lparr>length_buffer = 2, pos = 0, data = [None, None]\<rparr>
   \<and> position_inv (buf full_writer)
   \<and> write_byte unlimited full_writer 65
     = Some (Inr (), \<lparr>buf = \<lparr>length_buffer = 4, pos = 3, data = [Some 1, Some 2, Some 65, None]\<rparr>,
                      live = {BufStruct, BufData}\<rparr>)
   \<and> position_inv \<lparr>length_buffer = 4, pos = 3, data = [Some 1, Some 2, Some 65, None]\<rparr>
   \<and> write_bytes unlimited full_writer [7, 8, 9] 3
     = Some (Inr (), \<lparr>buf = \<lparr>length_buffer = 8, pos = 5,
                            data = [Some 1, Some 2, Some 7, Some 8, Some 9, None, None, None]\<rparr>,
                      live = {BufStruct, BufData}\<rparr>)
   \<and> position_inv \<lparr>length_buffer = 8, pos = 5,
                     data = [Some 1, Some 2, Some 7, Some 8, Some 9, None, None, None]\<rparr>
   \<and> expand_buffer unlimited full_writer
     = (Inr (), \<lparr>buf = \<lparr>length_buffer = 4, pos = 2, data = [Some 1, Some 2, None, None]\<rparr>,
                 live = {BufStruct, BufData}\<rparr>)
   \<and> position_inv \<lparr>length_buffer = 4, pos = 2, data = [Some 1, Some 2, None, None]\<rparr>
   \<and> position_inv (reader_over [7, 8, 9])
   \<and> read_byte (reader_over [7, 8, 9])
     = (Inr 7, \<lparr>length_buffer = 3, pos = 1, data = [Some 7, Some 8, Some 9]\<rparr>)
   \<and> position_inv \<lparr>length_buffer = 3, pos = 1, data = [Some 7, Some 8, Some 9]\<rparr>
   \<and> read_bytes (reader_over [7, 8, 9]) 2
     = (Inr [7, 8], \<lparr>length_buffer = 3, pos = 2, data = [Some 7, Some 8, Some 9]\<rparr>)
   \<and> position_inv \<lparr>length_buffer = 3, pos = 2, data = [Some 7, Some 8, Some 9]\<rparr>"
proof -
  have fw: "position_inv (buf full_writer)"
    by (simp add: position_inv_def full_writer_def)
  have rd: "position_inv (reader_over [7, 8, 9])"
    by (simp add: position_inv_def reader_over_def)
  note t = position_invariant [where ev = unlimited and s = full_writer and u = "()"
      and b = "reader_over [7, 8, 9]"]
  have "position_inv \<lparr>length_buffer = 2, pos = 0, data = [None, None]\<rparr>"
    using t [where nbytes = 2] init_buffer_two by simp
  moreover have "position_inv \<lparr>length_buffer = 4, pos = 3, data = [Some 1, Some 2, Some 65, None]\<rparr>"
    using t [where c = 65 and s' = "\<lparr>buf = \<lparr>length_buffer = 4, pos = 3,
        data = [Some 1, Some 2, Some 65, None]\<rparr>, live = {BufStruct, BufData}\<rparr>"]
      fw full_writer_byte by simp
  moreover have "position_inv \<lparr>length_buffer = 8, pos = 5,
                     data = [Some 1, Some 2, Some 7, Some 8, Some 9, None, None, None]\<rparr>"
    using t [where src = "[7, 8, 9]" and n = 3 and s' = "\<lparr>buf = \<lparr>length_buffer = 8, pos = 5,
        data = [Some 1, Some 2, Some 7, Some 8, Some 9, None, None, None]\<rparr>,
        live = {BufStruct, BufData}\<rparr>"]
      fw full_writer_bytes by simp
  moreover have "position_inv \<lparr>length_buffer = 4, pos = 2, data = [Some 1, Some 2, None, None]\<rparr>"
    using t [where s' = "\<lparr>buf = \<lparr>length_buffer = 4, pos = 2,
        data = [Some 1, Some 2, None, None]\<rparr>, live = {BufStruct, BufData}\<rparr>"]
      fw full_writer_expand by simp
  moreover have "position_inv \<lparr>length_buffer = 3, pos = 1, data = [Some 7, Some 8, Some 9]\<rparr>"
    using t [where x = 7 and b' = "\<lparr>length_buffer = 3, pos = 1, data = [Some 7, Some 8, Some 9]\<rparr>"]
      rd reader_byte by simp
  moreover have "position_inv \<lparr>length_buffer = 3, pos = 2, data = [Some 7, Some 8, Some 9]\<rparr>"
    using t [where n = 2 and bs = "[7, 8]"
        and b' = "\<lparr>length_buffer = 3, pos = 2, data = [Some 7, Some 8, Some 9]\<rparr>"]
      rd reader_bytes by simp
  ultimately show ?thesis
    using fw rd init_buffer_two full_writer_byte full_writer_bytes full_writer_expand
      reader_byte reader_bytes by simp
qed

lemma read_byte_pos: "read_byte b = (r, b') \<Longrightarrow> pos b \<le> pos b'"
  by (auto simp: read_byte_def split: if_splits option.splits)

lemma read_bytes_pos: "read_bytes b n = (r, b') \<Longrightarrow> pos b \<le> pos b'"
  by (auto simp: read_bytes_def bytes_at_def split: if_splits option.splits)

text \<open>
  Claim C6. After a sequence of successful write calls on the buffer \<open>init_buffer\<close> has
  created, the cursor equals the number of bytes the calls appended; and no operation
  moves the cursor back, whatever its outcome: \<open>write_byte\<close>, \<open>write_bytes\<close>,
  \<open>expand_buffer\<close>, \<open>read_byte\<close>, \<open>read_bytes\<close>.
\<close>

theorem position_counts_appended:
  "(init_buffer ev nbytes = (Inr b0, lv)
      \<and> R_Serialize ev cs \<lparr>buf = b0, live = lv\<rparr> = Some (Inr u, s')
      \<longrightarrow> pos (buf s') = appended cs)
   \<and> (write_byte ev s c = Some (r, t) \<longrightarrow> pos (buf s) \<le> pos (buf t))
   \<and> (write_bytes ev s src n = Some (r, t) \<longrightarrow> pos (buf s) \<le> pos (buf t))
   \<and> (expand_buffer ev s = (r, t) \<longrightarrow> pos (buf s) \<le> pos (buf t))
   \<and> (read_byte b = (ri, b') \<longrightarrow> pos b \<le> pos b')
   \<and> (read_bytes b n = (rb, b') \<longrightarrow> pos b \<le> pos b')"
proof -
  have a: "init_buffer ev nbytes = (Inr b0, lv)
      \<and> R_Serialize ev cs \<lparr>buf = b0, live = lv\<rparr> = Some (Inr u, s')
      \<longrightarrow> pos (buf s') = appended cs"
  proof
    assume h: "init_buffer ev nbytes = (Inr b0, lv)
      \<and> R_Serialize ev cs \<lparr>buf = b0, live = lv\<rparr> = Some (Inr u, s')"
    then have "pos b0 = 0" by (auto simp: init_buffer_def split: if_splits)
    with R_Serialize_pos [of ev cs "\<lparr>buf = b0, live = lv\<rparr>" u s'] h
    show "pos (buf s') = appended cs" by simp
  qed
  have w1: "write_byte ev s c = Some (r, t) \<longrightarrow> pos (buf s) \<le> pos (buf t)"
  proof
    assume "write_byte ev s c = Some (r, t)"
    from write_byte_partial [OF this] show "pos (buf s) \<le> pos (buf t)"
      by (cases r) (auto simp: stored_pos)
  qed
  have w2: "write_bytes ev s src n = Some (r, t) \<longrightarrow> pos (buf s) \<le> pos (buf t)"
  proof
    assume "write_bytes ev s src n = Some (r, t)"
    from write_bytes_partial [OF this] show "pos (buf s) \<le> pos (buf t)"
      by (cases r) (auto simp: copied_pos)
  qed
  have x: "expand_buffer ev s = (r, t) \<longrightarrow> pos (buf s) \<le> pos (buf t)"
    using expand_buffer_pos [of ev s r t] by simp
  from a w1 w2 x read_byte_pos [of b ri b'] read_bytes_pos [of b n rb b']
  show ?thesis by blast
qed

lemma init_two_serialize:
  "R_Serialize unlimited [WriteByte 65, WriteBytes [1, 2, 3] 3]
     \<lparr>buf = \<lparr>length_buffer = 2, pos = 0, data = [None, None]\<rparr>, live = {BufStruct, BufData}\<rparr>
   = Some (Inr (), \<lparr>buf = \<lparr>length_buffer = 4, pos = 4,
                          data = [Some 65, Some 1, Some 2, Some 3]\<rparr>,
                    live = {BufStruct, BufData}\<rparr>)"
  by code_simp

theorem position_counts_appended_witness:
  "init_buffer unlimited 2
     = (Inr \<lparr>length_buffer = 2, pos = 0, data = [None, None]\<rparr>, {BufStruct, BufData})
   \<and> R_Serialize unlimited [WriteByte 65, WriteBytes [1, 2, 3] 3]
       \<lparr>buf = \<lparr>length_buffer = 2, pos = 0, data = [None, None]\<rparr>, live = {BufStruct, BufData}\<rparr>
     = Some (Inr (), \<lparr>buf = \<lparr>length_buffer = 4, pos = 4,
                            data = [Some 65, Some 1, Some 2, Some 3]\<rparr>,
                      live = {BufStruct, BufData}\<rparr>)
   \<and> appended [WriteByte 65, WriteBytes [1, 2, 3] 3] = 4
   \<and> write_byte unlimited full_writer 65
     = Some (Inr (), \<lparr>buf = \<lparr>length_buffer = 4, pos = 3, data = [Some 1, Some 2, Some 65, None]\<rparr>,
                      live = {BufStruct, BufData}\<rparr>)
   \<and> pos (buf full_writer) \<le> 3"
proof -
  note t = position_counts_appended [where ev = unlimited]
  have "pos (buf \<lparr>buf = \<lparr>length_buffer = 4, pos = 4, data = [Some 65, Some 1, Some 2, Some 3]\<rparr>,
                   live = {BufStruct, BufData}\<rparr>) = appended [WriteByte 65, WriteBytes [1, 2, 3] 3]"
    using t [where nbytes = 2 and u = "()" and cs = "[WriteByte 65, WriteBytes [1, 2, 3] 3]"]
      init_buffer_two init_two_serialize by blast
  then have a: "appended [WriteByte 65, WriteBytes [1, 2, 3] 3] = 4" by simp
  have "pos (buf full_writer) \<le> pos (buf \<lparr>buf = \<lparr>length_buffer = 4, pos = 3,
      data = [Some 1, Some 2, Some 65, None]\<rparr>, live = {BufStruct, BufData}\<rparr>)"
    using t [where s = full_writer and c = 65 and r = "Inr ()"] full_writer_byte by blast
  then have b: "pos (buf full_writer) \<le> 3" by simp
  from a b init_buffer_two init_two_serialize full_writer_byte show ?thesis by simp
qed

section \<open>Committed bytes and growth\<close>

lemma committed_length:
  assumes "writer_ok s"
  shows "length (committed (buf s)) = nat (pos (buf s))"
proof -
  have "nat (pos (buf s)) \<le> length (data (buf s))"
    using assms unfolding writer_ok_def buffer_ok_def by linarith
  then show ?thesis by (simp add: committed_def)
qed

text \<open>When the committed content has only been extended, the cells below the old cursor
  are the old ones.\<close>

lemma committed_prefix:
  assumes "writer_ok s" "committed (buf s') = committed (buf s) @ xs"
  shows "take (nat (pos (buf s))) (data (buf s')) = committed (buf s)"
proof -
  let ?p = "nat (pos (buf s))"
  have l: "length (committed (buf s)) = ?p" by (rule committed_length [OF assms(1)])
  have "length (committed (buf s')) \<le> nat (pos (buf s'))" by (simp add: committed_def)
  with assms(2) l have le: "?p \<le> nat (pos (buf s'))" by simp
  have "take ?p (data (buf s')) = take ?p (take (nat (pos (buf s'))) (data (buf s')))"
    using le by (simp add: min_absorb1)
  also have "\<dots> = take ?p (committed (buf s) @ xs)"
    using assms(2) by (simp add: committed_def)
  also have "\<dots> = committed (buf s)" using l by simp
  finally show ?thesis .
qed

lemma out_call_writer:
  assumes "writer_ok s" "out_call ev c s = Some (Inr u, s')"
  shows "writer_ok s'"
    and "committed (buf s') = committed (buf s) @ map Some (call_bytes c)"
    and "live s' = live s"
    and "length (data (buf s)) \<le> length (data (buf s'))"
    and "pos (buf s') = pos (buf s) + call_count c"
    and "0 \<le> call_count c"
proof -
  have "writer_ok s' \<and> committed (buf s') = committed (buf s) @ map Some (call_bytes c)
      \<and> live s' = live s \<and> length (data (buf s)) \<le> length (data (buf s'))
      \<and> pos (buf s') = pos (buf s) + call_count c \<and> 0 \<le> call_count c"
  proof (cases c)
    case (WriteByte x)
    with assms(2) have "write_byte ev s x = Some (Inr u, s')" by (simp add: out_call_def)
    from write_byte_writer [OF assms(1) this] show ?thesis using WriteByte by simp
  next
    case (WriteBytes src n)
    with assms(2) have "write_bytes ev s src n = Some (Inr u, s')" by (simp add: out_call_def)
    from write_bytes_writer [OF assms(1) this] show ?thesis using WriteBytes by simp
  next
    case EncodeError
    with assms(2) show ?thesis by (simp add: out_call_def)
  qed
  then show "writer_ok s'"
    and "committed (buf s') = committed (buf s) @ map Some (call_bytes c)"
    and "live s' = live s"
    and "length (data (buf s)) \<le> length (data (buf s'))"
    and "pos (buf s') = pos (buf s) + call_count c"
    and "0 \<le> call_count c" by simp_all
qed

lemma R_Serialize_writer:
  assumes "writer_ok s" "R_Serialize ev cs s = Some (Inr u, s')"
  shows "writer_ok s' \<and> committed (buf s') = committed (buf s) @ map Some (emitted cs)
      \<and> live s' = live s \<and> length (data (buf s)) \<le> length (data (buf s'))"
  using assms
proof (induction cs arbitrary: s)
  case Nil
  then show ?case by (simp add: emitted_def)
next
  case (Cons c cs)
  from Cons.prems(2) obtain v t where c: "out_call ev c s = Some (Inr v, t)"
    and r: "R_Serialize ev cs t = Some (Inr u, s')"
    by (auto split: option.splits sum.splits prod.splits)
  note o = out_call_writer [OF Cons.prems(1) c]
  from Cons.IH [OF o(1) r] o(2,3,4) show ?case by (simp add: emitted_def)
qed

text \<open>
  Claim C7. On a well-formed writer every successful growth step, every successful
  \<open>write_byte\<close> and \<open>write_bytes\<close>, and every successful sequence of them leaves the
  cells below the old cursor as they were, and the block never becomes shorter.
\<close>

theorem committed_bytes_preserved:
  assumes "writer_ok s"
  shows "(expand_buffer ev s = (Inr u, s') \<longrightarrow>
            take (nat (pos (buf s))) (data (buf s')) = take (nat (pos (buf s))) (data (buf s))
            \<and> length (data (buf s)) \<le> length (data (buf s')))
       \<and> (write_byte ev s c = Some (Inr u, s') \<longrightarrow>
            take (nat (pos (buf s))) (data (buf s')) = take (nat (pos (buf s))) (data (buf s))
            \<and> length (data (buf s)) \<le> length (data (buf s')))
       \<and> (write_bytes ev s src n = Some (Inr u, s') \<longrightarrow>
            take (nat (pos (buf s))) (data (buf s')) = take (nat (pos (buf s))) (data (buf s))
            \<and> length (data (buf s)) \<le> length (data (buf s')))
       \<and> (R_Serialize ev cs s = Some (Inr u, s') \<longrightarrow>
            take (nat (pos (buf s))) (data (buf s')) = take (nat (pos (buf s))) (data (buf s))
            \<and> length (data (buf s)) \<le> length (data (buf s')))"
proof -
  have x: "expand_buffer ev s = (Inr u, s') \<longrightarrow>
            take (nat (pos (buf s))) (data (buf s')) = take (nat (pos (buf s))) (data (buf s))
            \<and> length (data (buf s)) \<le> length (data (buf s'))"
  proof
    assume e: "expand_buffer ev s = (Inr u, s')"
    have "nat (pos (buf s)) \<le> length (data (buf s))"
      using assms unfolding writer_ok_def buffer_ok_def by linarith
    with expand_buffer_writer_ok(5) [OF assms e]
    show "take (nat (pos (buf s))) (data (buf s')) = take (nat (pos (buf s))) (data (buf s))
            \<and> length (data (buf s)) \<le> length (data (buf s'))" by simp
  qed
  have w1: "write_byte ev s c = Some (Inr u, s') \<longrightarrow>
            take (nat (pos (buf s))) (data (buf s')) = take (nat (pos (buf s))) (data (buf s))
            \<and> length (data (buf s)) \<le> length (data (buf s'))"
  proof
    assume w: "write_byte ev s c = Some (Inr u, s')"
    from committed_prefix [OF assms write_byte_writer(3) [OF assms w]]
      write_byte_writer(5) [OF assms w]
    show "take (nat (pos (buf s))) (data (buf s')) = take (nat (pos (buf s))) (data (buf s))
            \<and> length (data (buf s)) \<le> length (data (buf s'))" by (simp add: committed_def)
  qed
  have w2: "write_bytes ev s src n = Some (Inr u, s') \<longrightarrow>
            take (nat (pos (buf s))) (data (buf s')) = take (nat (pos (buf s))) (data (buf s))
            \<and> length (data (buf s)) \<le> length (data (buf s'))"
  proof
    assume w: "write_bytes ev s src n = Some (Inr u, s')"
    from committed_prefix [OF assms write_bytes_writer(3) [OF assms w]]
      write_bytes_writer(5) [OF assms w]
    show "take (nat (pos (buf s))) (data (buf s')) = take (nat (pos (buf s))) (data (buf s))
            \<and> length (data (buf s)) \<le> length (data (buf s'))" by (simp add: committed_def)
  qed
  have sq: "R_Serialize ev cs s = Some (Inr u, s') \<longrightarrow>
            take (nat (pos (buf s))) (data (buf s')) = take (nat (pos (buf s))) (data (buf s))
            \<and> length (data (buf s)) \<le> length (data (buf s'))"
  proof
    assume w: "R_Serialize ev cs s = Some (Inr u, s')"
    from R_Serialize_writer [OF assms w]
    have "committed (buf s') = committed (buf s) @ map Some (emitted cs)"
      and l: "length (data (buf s)) \<le> length (data (buf s'))" by simp_all
    from committed_prefix [OF assms this(1)] l
    show "take (nat (pos (buf s))) (data (buf s')) = take (nat (pos (buf s))) (data (buf s))
            \<and> length (data (buf s)) \<le> length (data (buf s'))" by (simp add: committed_def)
  qed
  from x w1 w2 sq show ?thesis by blast
qed

theorem committed_bytes_preserved_witness:
  "writer_ok full_writer
   \<and> write_bytes unlimited full_writer [7, 8, 9] 3
     = Some (Inr (), \<lparr>buf = \<lparr>length_buffer = 8, pos = 5,
                            data = [Some 1, Some 2, Some 7, Some 8, Some 9, None, None, None]\<rparr>,
                      live = {BufStruct, BufData}\<rparr>)
   \<and> take (nat (pos (buf full_writer)))
        [Some 1, Some 2, Some 7, Some 8, Some 9, None, None, None]
     = take (nat (pos (buf full_writer))) (data (buf full_writer))
   \<and> write_byte unlimited full_writer 65
     = Some (Inr (), \<lparr>buf = \<lparr>length_buffer = 4, pos = 3, data = [Some 1, Some 2, Some 65, None]\<rparr>,
                      live = {BufStruct, BufData}\<rparr>)
   \<and> take (nat (pos (buf full_writer))) [Some 1, Some 2, Some 65, None]
     = take (nat (pos (buf full_writer))) (data (buf full_writer))
   \<and> expand_buffer unlimited full_writer
     = (Inr (), \<lparr>buf = \<lparr>length_buffer = 4, pos = 2, data = [Some 1, Some 2, None, None]\<rparr>,
                 live = {BufStruct, BufData}\<rparr>)
   \<and> take (nat (pos (buf full_writer))) [Some 1, Some 2, None, None]
     = take (nat (pos (buf full_writer))) (data (buf full_writer))"
proof -
  note t = committed_bytes_preserved [OF full_writer_ok, where ev = unlimited and u = "()"]
  have a: "take (nat (pos (buf full_writer)))
        [Some 1, Some 2, Some 7, Some 8, Some 9, None, None, None]
     = take (nat (pos (buf full_writer))) (data (buf full_writer))"
    using t [where src = "[7, 8, 9]" and n = 3 and s' = "\<lparr>buf = \<lparr>length_buffer = 8, pos = 5,
        data = [Some 1, Some 2, Some 7, Some 8, Some 9, None, None, None]\<rparr>,
        live = {BufStruct, BufData}\<rparr>"] full_writer_bytes by simp
  have b: "take (nat (pos (buf full_writer))) [Some 1, Some 2, Some 65, None]
     = take (nat (pos (buf full_writer))) (data (buf full_writer))"
    using t [where c = 65 and s' = "\<lparr>buf = \<lparr>length_buffer = 4, pos = 3,
        data = [Some 1, Some 2, Some 65, None]\<rparr>, live = {BufStruct, BufData}\<rparr>"]
      full_writer_byte by simp
  have c: "take (nat (pos (buf full_writer))) [Some 1, Some 2, None, None]
     = take (nat (pos (buf full_writer))) (data (buf full_writer))"
    using t [where s' = "\<lparr>buf = \<lparr>length_buffer = 4, pos = 2,
        data = [Some 1, Some 2, None, None]\<rparr>, live = {BufStruct, BufData}\<rparr>"]
      full_writer_expand by simp
  from a b c full_writer_ok full_writer_bytes full_writer_byte full_writer_expand
  show ?thesis by blast
qed

section \<open>Bytes and integers\<close>

lemma uint_byte_of_int: "uint (word_of_int c :: byte) = c mod 256"
  by (simp add: uint_word_of_int_eq take_bit_eq_mod)

lemma stored_cell:
  assumes "0 \<le> pos (buf t)" "pos (buf t) < int (length (data (buf t)))"
  shows "data (buf (stored t x)) ! nat (pos (buf t)) = Some x"
proof -
  from assms have "nat (pos (buf t)) < length (data (buf t))" by linarith
  then show ?thesis by (simp add: stored_def)
qed

text \<open>
  Claim C10. \<open>write_byte\<close> stores the low eight bits of its \<open>int\<close> argument: the cell
  under the old cursor holds the byte whose value is \<open>c mod 256\<close>. \<open>read_byte\<close> returns
  a value between 0 and 255. Reading at that offset in the written block gives back
  \<open>c mod 256\<close>.
\<close>

theorem byte_written_mod_256:
  "(write_byte ev s c = Some (Inr u, s') \<longrightarrow>
      data (buf s') ! nat (pos (buf s)) = Some (word_of_int c)
      \<and> uint (word_of_int c :: byte) = c mod 256)
   \<and> (read_byte b = (Inr x, b') \<longrightarrow> 0 \<le> x \<and> x \<le> 255)
   \<and> (write_byte ev s c = Some (Inr u, s') \<longrightarrow>
      read_byte \<lparr>length_buffer = pos (buf s'), pos = pos (buf s), data = data (buf s')\<rparr>
        = (Inr (c mod 256),
           \<lparr>length_buffer = pos (buf s'), pos = pos (buf s) + 1, data = data (buf s')\<rparr>))"
proof -
  have w: "write_byte ev s c = Some (Inr u, s') \<longrightarrow>
      data (buf s') ! nat (pos (buf s)) = Some (word_of_int c)
      \<and> uint (word_of_int c :: byte) = c mod 256
      \<and> read_byte \<lparr>length_buffer = pos (buf s'), pos = pos (buf s), data = data (buf s')\<rparr>
        = (Inr (c mod 256),
           \<lparr>length_buffer = pos (buf s'), pos = pos (buf s) + 1, data = data (buf s')\<rparr>)"
  proof
    assume "write_byte ev s c = Some (Inr u, s')"
    from write_byte_partial [OF this] obtain t where
      t: "s' = stored t (word_of_int c)" "pos (buf t) = pos (buf s)" "0 \<le> pos (buf t)"
      "pos (buf t) < int (length (data (buf t)))" by blast
    have cell: "data (buf s') ! nat (pos (buf s)) = Some (word_of_int c)"
      using stored_cell [OF t(3,4), of "word_of_int c"] t(1,2) by simp
    have p': "pos (buf s') = pos (buf s) + 1" using t(1,2) by (simp add: stored_pos)
    have len: "length (data (buf s')) = length (data (buf t))" using t(1) by (simp add: stored_def)
    have "read_byte \<lparr>length_buffer = pos (buf s'), pos = pos (buf s), data = data (buf s')\<rparr>
        = (Inr (c mod 256),
           \<lparr>length_buffer = pos (buf s'), pos = pos (buf s) + 1, data = data (buf s')\<rparr>)"
      using cell p' len t(2,3,4) by (simp add: read_byte_def uint_byte_of_int)
    with cell show "data (buf s') ! nat (pos (buf s)) = Some (word_of_int c)
      \<and> uint (word_of_int c :: byte) = c mod 256
      \<and> read_byte \<lparr>length_buffer = pos (buf s'), pos = pos (buf s), data = data (buf s')\<rparr>
        = (Inr (c mod 256),
           \<lparr>length_buffer = pos (buf s'), pos = pos (buf s) + 1, data = data (buf s')\<rparr>)"
      by (simp add: uint_byte_of_int)
  qed
  have r: "read_byte b = (Inr x, b') \<longrightarrow> 0 \<le> x \<and> x \<le> 255"
  proof
    assume "read_byte b = (Inr x, b')"
    from read_byte_success(5) [OF this] obtain y :: byte where "x = uint y" by blast
    moreover have "uint y < 2 ^ 8" using uint_bounded [of y] by simp
    moreover have "0 \<le> uint y" by simp
    ultimately show "0 \<le> x \<and> x \<le> 255" by simp
  qed
  from w r show ?thesis by blast
qed

lemma full_writer_byte_wrap:
  "write_byte unlimited full_writer 321 =
     Some (Inr (), \<lparr>buf = \<lparr>length_buffer = 4, pos = 3, data = [Some 1, Some 2, Some 65, None]\<rparr>,
                    live = {BufStruct, BufData}\<rparr>)"
  by code_simp

lemma reader_byte_high:
  "read_byte (reader_over [255]) = (Inr 255, \<lparr>length_buffer = 1, pos = 1, data = [Some 255]\<rparr>)"
  by code_simp

theorem byte_written_mod_256_witness:
  "write_byte unlimited full_writer 321
     = Some (Inr (), \<lparr>buf = \<lparr>length_buffer = 4, pos = 3, data = [Some 1, Some 2, Some 65, None]\<rparr>,
                      live = {BufStruct, BufData}\<rparr>)
   \<and> read_byte \<lparr>length_buffer = 3, pos = 2, data = [Some 1, Some 2, Some 65, None]\<rparr>
     = (Inr 65, \<lparr>length_buffer = 3, pos = 3, data = [Some 1, Some 2, Some 65, None]\<rparr>)
   \<and> read_byte (reader_over [255]) = (Inr 255, \<lparr>length_buffer = 1, pos = 1, data = [Some 255]\<rparr>)
   \<and> (255 :: int) \<le> 255"
proof -
  note t = byte_written_mod_256 [where ev = unlimited and s = full_writer and c = 321 and u = "()"
      and s' = "\<lparr>buf = \<lparr>length_buffer = 4, pos = 3, data = [Some 1, Some 2, Some 65, None]\<rparr>,
                 live = {BufStruct, BufData}\<rparr>"
      and b = "reader_over [255]" and x = 255
      and b' = "\<lparr>length_buffer = 1, pos = 1, data = [Some 255]\<rparr>"]
  have "read_byte \<lparr>length_buffer = 3, pos = 2, data = [Some 1, Some 2, Some 65, None]\<rparr>
     = (Inr 65, \<lparr>length_buffer = 3, pos = 3, data = [Some 1, Some 2, Some 65, None]\<rparr>)"
    using t full_writer_byte_wrap by (simp add: full_writer_def)
  with full_writer_byte_wrap reader_byte_high show ?thesis by simp
qed

section \<open>One bulk call against one call per byte\<close>

text \<open>The loops of the two callbacks, one growth step at a time.\<close>

lemma write_byte_unfold:
  "write_byte ev s c =
     (if length_buffer (buf s) \<le> pos (buf s)
      then (case expand_buffer ev s of
              (Inl e, t) \<Rightarrow> Some (Inl e, t)
            | (Inr u, t) \<Rightarrow> write_byte ev t c)
      else if 0 \<le> pos (buf s) \<and> pos (buf s) < int (length (data (buf s)))
        then Some (Inr (), stored s (word_of_int c))
        else Some (Inl Undefined, s))"
proof (cases "length_buffer (buf s) \<le> pos (buf s)")
  case True
  obtain r t where e: "expand_buffer ev s = (r, t)" by (cases "expand_buffer ev s")
  show ?thesis
    unfolding write_byte_cases [of ev s]
    by (subst expand_while.simps) (cases r; simp add: True e write_byte_cases)
next
  case False
  show ?thesis
    unfolding write_byte_cases [of ev s]
    by (subst expand_while.simps) (simp add: False)
qed

lemma write_bytes_unfold:
  "write_bytes ev s src n =
     (if length_buffer (buf s) < pos (buf s) + n
      then (case expand_buffer ev s of
              (Inl e, t) \<Rightarrow> Some (Inl e, t)
            | (Inr u, t) \<Rightarrow> write_bytes ev t src n)
      else if 0 \<le> n \<and> n \<le> int (length src) \<and> 0 \<le> pos (buf s)
              \<and> pos (buf s) + n \<le> int (length (data (buf s)))
        then Some (Inr (), copied s src n)
        else Some (Inl Undefined, s))"
proof (cases "length_buffer (buf s) < pos (buf s) + n")
  case True
  obtain r t where e: "expand_buffer ev s = (r, t)" by (cases "expand_buffer ev s")
  show ?thesis
    unfolding write_bytes_cases [of ev s]
    by (subst expand_while.simps) (cases r; simp add: True e write_bytes_cases)
next
  case False
  show ?thesis
    unfolding write_bytes_cases [of ev s]
    by (subst expand_while.simps) (simp add: False)
qed

text \<open>A byte stored below the capacity commutes with a growth step.\<close>

lemma expand_buffer_stored:
  assumes "writer_ok s" "pos (buf s) < length_buffer (buf s)"
  shows "expand_buffer ev (stored s x) = (case expand_buffer ev s of (r, t) \<Rightarrow> (r, stored t x))"
proof -
  have l: "0 \<le> pos (buf s)" "int (length (data (buf s))) = length_buffer (buf s)"
    using assms(1) by (simp_all add: writer_ok_def buffer_ok_def)
  with assms(2) have lt: "nat (pos (buf s)) < length (data (buf s))" by linarith
  have up: "(data (buf s))[nat (pos (buf s)) := Some x] @ replicate (length (data (buf s))) None
      = (data (buf s) @ replicate (length (data (buf s))) None)[nat (pos (buf s)) := Some x]"
    using lt by (simp add: list_update_append1)
  note ok' = stored_writer(1) [OF assms, of x]
  show ?thesis
    unfolding expand_buffer_writer [OF ok'] expand_buffer_writer [OF assms(1)]
    by (simp add: stored_def Let_def up)
qed

lemma copied_stored:
  assumes "writer_ok t" "pos (buf t) + int (length xs) + 1 \<le> length_buffer (buf t)"
  shows "copied t (x # xs) (int (length (x # xs))) = copied (stored t x) xs (int (length xs))"
proof -
  let ?p = "nat (pos (buf t))"
  let ?d = "data (buf t)"
  let ?m = "length xs"
  have l: "0 \<le> pos (buf t)" "int (length ?d) = length_buffer (buf t)"
    using assms(1) by (simp_all add: writer_ok_def buffer_ok_def)
  with assms(2) have lt: "?p < length ?d" by linarith
  have n1: "nat (pos (buf t) + int (length (x # xs))) = Suc (?p + ?m)"
    and n2: "nat (pos (buf t) + 1) = Suc ?p"
    and n3: "nat (pos (buf t) + 1 + int ?m) = Suc (?p + ?m)"
    using l(1) by simp_all
  have tk: "take (Suc ?p) (?d[?p := Some x]) = take ?p ?d @ [Some x]"
    using lt by (simp add: take_Suc_conv_app_nth)
  have dr: "drop (Suc (?p + ?m)) (?d[?p := Some x]) = drop (Suc (?p + ?m)) ?d"
    by simp
  have d: "take ?p ?d @ map Some (take (nat (int (length (x # xs)))) (x # xs))
              @ drop (nat (pos (buf t) + int (length (x # xs)))) ?d
         = take (nat (pos (buf t) + 1)) (?d[?p := Some x]) @ map Some (take (nat (int ?m)) xs)
              @ drop (nat (pos (buf t) + 1 + int ?m)) (?d[?p := Some x])"
    unfolding n1 n2 n3 tk dr by simp
  show ?thesis
    unfolding copied_def stored_def using d by simp
qed

lemma outcome_simps:
  "outcome None = None"
  "outcome (Some (Inl e, s)) = Some (Inl e)"
  "outcome (Some (Inr u, s)) = Some (Inr s)"
  by (simp_all add: outcome_def)

text \<open>With room for one byte, storing the first byte of a run and copying the rest is the
  same as copying the whole run.\<close>

lemma write_bytes_shift:
  assumes "writer_ok s" "pos (buf s) < length_buffer (buf s)"
  shows "outcome (write_bytes ev s (x # xs) (int (length (x # xs))))
       = outcome (write_bytes ev (stored s x) xs (int (length xs)))"
  using assms
proof (induction s rule: writer_induct [where ev = ev])
  case (step s)
  let ?m = "int (length xs)"
  note ok' = stored_writer [OF step.hyps step.prems, of x]
  have l: "0 \<le> pos (buf s)" "int (length (data (buf s))) = length_buffer (buf s)"
    using step.hyps by (simp_all add: writer_ok_def buffer_ok_def)
  show ?case
  proof (cases "length_buffer (buf s) < pos (buf s) + ?m + 1")
    case True
    obtain r t where e: "expand_buffer ev s = (r, t)" by (cases "expand_buffer ev s")
    have e': "expand_buffer ev (stored s x) = (r, stored t x)"
      using expand_buffer_stored [OF step.hyps step.prems, of ev x] e by simp
    have L: "write_bytes ev s (x # xs) (int (length (x # xs)))
        = (case r of Inl err \<Rightarrow> Some (Inl err, t)
           | Inr u \<Rightarrow> write_bytes ev t (x # xs) (int (length (x # xs))))"
      using True by (subst write_bytes_unfold) (simp add: e split: sum.splits)
    have R: "write_bytes ev (stored s x) xs ?m
        = (case r of Inl err \<Rightarrow> Some (Inl err, stored t x)
           | Inr u \<Rightarrow> write_bytes ev (stored t x) xs ?m)"
      using True by (subst write_bytes_unfold) (simp add: e' ok'(3,5) split: sum.splits)
    show ?thesis
    proof (cases r)
      case (Inl err)
      then show ?thesis unfolding L R by (simp add: outcome_simps)
    next
      case (Inr u)
      note f = expand_buffer_writer_ok [OF step.hyps e [unfolded Inr]]
      have "pos (buf t) < length_buffer (buf t)"
        using f(2,3) step.prems l(1) by linarith
      from step.IH [OF e [unfolded Inr] f(1) this] show ?thesis
        unfolding L R Inr by simp
    qed
  next
    case False
    then have fit: "pos (buf s) + ?m + 1 \<le> length_buffer (buf s)" by simp
    have L: "write_bytes ev s (x # xs) (int (length (x # xs)))
        = Some (Inr (), copied s (x # xs) (int (length (x # xs))))"
      using False l by (subst write_bytes_unfold) simp
    have R: "write_bytes ev (stored s x) xs ?m = Some (Inr (), copied (stored s x) xs ?m)"
      using False l by (subst write_bytes_unfold) (simp add: ok'(3,5,6))
    show ?thesis
      unfolding L R copied_stored [OF step.hyps fit] ..
  qed
qed

lemma write_bytes_step:
  assumes "writer_ok s"
  shows "outcome (write_bytes ev s (x # xs) (int (length (x # xs))))
       = (case write_byte ev s (uint x) of
            None \<Rightarrow> None
          | Some (Inl e, t) \<Rightarrow> Some (Inl e)
          | Some (Inr u, t) \<Rightarrow> outcome (write_bytes ev t xs (int (length xs))))"
  using assms
proof (induction s rule: writer_induct [where ev = ev])
  case (step s)
  have l: "0 \<le> pos (buf s)" "int (length (data (buf s))) = length_buffer (buf s)"
    using step.hyps by (simp_all add: writer_ok_def buffer_ok_def)
  show ?case
  proof (cases "length_buffer (buf s) \<le> pos (buf s)")
    case True
    obtain r t where e: "expand_buffer ev s = (r, t)" by (cases "expand_buffer ev s")
    have L: "write_bytes ev s (x # xs) (int (length (x # xs)))
        = (case r of Inl err \<Rightarrow> Some (Inl err, t)
           | Inr u \<Rightarrow> write_bytes ev t (x # xs) (int (length (x # xs))))"
      using True by (subst write_bytes_unfold) (simp add: e split: sum.splits)
    have R: "write_byte ev s (uint x)
        = (case r of Inl err \<Rightarrow> Some (Inl err, t) | Inr u \<Rightarrow> write_byte ev t (uint x))"
      using True by (subst write_byte_unfold) (simp add: e split: sum.splits)
    show ?thesis
    proof (cases r)
      case (Inl err)
      then show ?thesis unfolding L R by (simp add: outcome_simps)
    next
      case (Inr u)
      note f = expand_buffer_writer_ok [OF step.hyps e [unfolded Inr]]
      from step.IH [OF e [unfolded Inr] f(1)] show ?thesis
        unfolding L R Inr by simp
    qed
  next
    case False
    then have lt: "pos (buf s) < length_buffer (buf s)" by simp
    have R: "write_byte ev s (uint x) = Some (Inr (), stored s x)"
      using False l by (subst write_byte_unfold) simp
    show ?thesis
      unfolding R write_bytes_shift [OF step.hyps lt] by simp
  qed
qed

lemma copied_nothing: "copied s [] 0 = s"
  by (simp add: copied_def)

lemma write_bytes_nothing:
  assumes "writer_ok s"
  shows "write_bytes ev s [] 0 = Some (Inr (), s)"
proof -
  have "0 \<le> pos (buf s)" "pos (buf s) \<le> length_buffer (buf s)"
    "int (length (data (buf s))) = length_buffer (buf s)"
    using assms by (simp_all add: writer_ok_def buffer_ok_def)
  then show ?thesis
    by (subst write_bytes_unfold) (simp add: copied_nothing)
qed

lemma bulk_is_bytewise:
  assumes "writer_ok s"
  shows "outcome (write_bytes ev s bs (int (length bs))) = outcome (R_Serialize ev (bytewise bs) s)"
  using assms
proof (induction bs arbitrary: s)
  case Nil
  then show ?case by (simp add: write_bytes_nothing bytewise_def)
next
  case (Cons x xs)
  show ?case
  proof (cases "write_byte ev s (uint x)")
    case None
    then show ?thesis
      unfolding write_bytes_step [OF Cons.prems]
      by (simp add: bytewise_def out_call_def outcome_simps)
  next
    case (Some y)
    obtain r t where y: "y = (r, t)" by (cases y)
    show ?thesis
    proof (cases r)
      case (Inl e)
      with Some y show ?thesis
        unfolding write_bytes_step [OF Cons.prems]
        by (simp add: bytewise_def out_call_def outcome_simps)
    next
      case (Inr u)
      with Some y have w: "write_byte ev s (uint x) = Some (Inr u, t)" by simp
      from Cons.IH [OF write_byte_writer(1) [OF Cons.prems w]] w show ?thesis
        unfolding write_bytes_step [OF Cons.prems]
        by (simp add: bytewise_def out_call_def)
    qed
  qed
qed

text \<open>
  Claim C3. From any well-formed writer, appending a run of bytes with one call of
  \<open>write_bytes\<close> and appending the same bytes with one call of \<open>write_byte\<close> each
  have the same outcome: both fail, with the same error, or both succeed and leave the
  same state, hence the same committed bytes and the same cursor. The bulk call returns
  (its loop ends) however many growth steps the run needs.
\<close>

theorem bulk_write_equals_bytewise:
  assumes "writer_ok s"
  shows "outcome (write_bytes ev s bs (int (length bs)))
           = outcome (R_Serialize ev (bytewise bs) s)
       \<and> (\<exists>r. write_bytes ev s bs (int (length bs)) = Some r)
       \<and> (write_bytes ev s bs (int (length bs)) = Some (Inr u, s1)
            \<and> R_Serialize ev (bytewise bs) s = Some (Inr v, s2)
          \<longrightarrow> committed (buf s1) = committed (buf s2) \<and> pos (buf s1) = pos (buf s2)
              \<and> committed (buf s1) = committed (buf s) @ map Some bs)"
proof -
  note eq = bulk_is_bytewise [OF assms, of ev bs]
  have "write_bytes ev s bs (int (length bs)) = Some (Inr u, s1)
            \<and> R_Serialize ev (bytewise bs) s = Some (Inr v, s2)
          \<longrightarrow> committed (buf s1) = committed (buf s2) \<and> pos (buf s1) = pos (buf s2)
              \<and> committed (buf s1) = committed (buf s) @ map Some bs"
  proof
    assume h: "write_bytes ev s bs (int (length bs)) = Some (Inr u, s1)
            \<and> R_Serialize ev (bytewise bs) s = Some (Inr v, s2)"
    with eq have "s1 = s2" by (simp add: outcome_simps)
    moreover from write_bytes_writer(3) [OF assms conjunct1 [OF h]]
    have "committed (buf s1) = committed (buf s) @ map Some bs" by simp
    ultimately show "committed (buf s1) = committed (buf s2) \<and> pos (buf s1) = pos (buf s2)
              \<and> committed (buf s1) = committed (buf s) @ map Some bs" by simp
  qed
  with eq write_bytes_returns [OF assms, of ev bs "int (length bs)"] show ?thesis by blast
qed

lemma full_writer_bulk:
  "write_bytes unlimited full_writer [10, 11, 12, 13, 14, 15, 16] 7 =
     Some (Inr (), \<lparr>buf = \<lparr>length_buffer = 16, pos = 9,
                          data = [Some 1, Some 2, Some 10, Some 11, Some 12, Some 13, Some 14,
                                  Some 15, Some 16, None, None, None, None, None, None, None]\<rparr>,
                    live = {BufStruct, BufData}\<rparr>)"
  by code_simp

lemma full_writer_bytewise:
  "R_Serialize unlimited (bytewise [10, 11, 12, 13, 14, 15, 16]) full_writer =
     Some (Inr (), \<lparr>buf = \<lparr>length_buffer = 16, pos = 9,
                          data = [Some 1, Some 2, Some 10, Some 11, Some 12, Some 13, Some 14,
                                  Some 15, Some 16, None, None, None, None, None, None, None]\<rparr>,
                    live = {BufStruct, BufData}\<rparr>)"
  by code_simp

theorem bulk_write_equals_bytewise_witness:
  "writer_ok full_writer
   \<and> write_bytes unlimited full_writer [10, 11, 12, 13, 14, 15, 16] 7
     = Some (Inr (), \<lparr>buf = \<lparr>length_buffer = 16, pos = 9,
                          data = [Some 1, Some 2, Some 10, Some 11, Some 12, Some 13, Some 14,
                                  Some 15, Some 16, None, None, None, None, None, None, None]\<rparr>,
                    live = {BufStruct, BufData}\<rparr>)
   \<and> outcome (R_Serialize unlimited (bytewise [10, 11, 12, 13, 14, 15, 16]) full_writer)
     = Some (Inr \<lparr>buf = \<lparr>length_buffer = 16, pos = 9,
                          data = [Some 1, Some 2, Some 10, Some 11, Some 12, Some 13, Some 14,
                                  Some 15, Some 16, None, None, None, None, None, None, None]\<rparr>,
                    live = {BufStruct, BufData}\<rparr>)"
proof -
  have "outcome (write_bytes unlimited full_writer [10, 11, 12, 13, 14, 15, 16]
            (int (length [10 :: byte, 11, 12, 13, 14, 15, 16])))
      = outcome (R_Serialize unlimited (bytewise [10, 11, 12, 13, 14, 15, 16]) full_writer)"
    using bulk_write_equals_bytewise [OF full_writer_ok, of unlimited
        "[10, 11, 12, 13, 14, 15, 16]"] by blast
  then have "outcome (R_Serialize unlimited (bytewise [10, 11, 12, 13, 14, 15, 16]) full_writer)
      = outcome (write_bytes unlimited full_writer [10, 11, 12, 13, 14, 15, 16] 7)"
    by simp
  with full_writer_ok full_writer_bulk show ?thesis
    by (simp add: outcome_simps)
qed

section \<open>The growth policy\<close>

text \<open>The capacity a loop that had to grow stops at: the first doubling that suffices.\<close>

lemma expand_while_least:
  assumes "writer_ok s"
    and "expand_while (\<lambda>b. length_buffer b < pos b + n) ev s = Some (Inr u, t)"
    and "length_buffer (buf s) < pos (buf s) + n"
  shows "length_buffer (buf t) < 2 * (pos (buf s) + n) \<and> length_buffer (buf s) < length_buffer (buf t)"
  using assms
proof (induction s rule: writer_induct [where ev = ev])
  case (step s)
  obtain r s' where e: "expand_buffer ev s = (r, s')" by (cases "expand_buffer ev s")
  show ?case
  proof (cases r)
    case (Inl err)
    with step.prems e show ?thesis by (subst (asm) expand_while.simps) simp
  next
    case (Inr v)
    note f = expand_buffer_writer_ok [OF step.hyps e [unfolded Inr]]
    have l0: "0 < length_buffer (buf s)" using step.hyps by (simp add: writer_ok_def)
    from step.prems e Inr
    have w: "expand_while (\<lambda>b. length_buffer b < pos b + n) ev s' = Some (Inr u, t)"
      by (subst (asm) expand_while.simps) simp
    show ?thesis
    proof (cases "length_buffer (buf s') < pos (buf s') + n")
      case True
      from step.IH [OF e [unfolded Inr] f(1) w True] f(2,3) l0 show ?thesis by simp
    next
      case False
      with w have "t = s'" by (subst (asm) expand_while.simps) simp
      with f(2) step.prems(2) l0 show ?thesis by simp
    qed
  qed
qed

lemma write_bytes_capacity:
  assumes "writer_ok s" "length_buffer (buf s) < pos (buf s) + n"
    and "write_bytes ev s src n = Some (Inr u, s')"
  shows "(\<exists>k>0. length_buffer (buf s') = length_buffer (buf s) * 2 ^ k)
       \<and> pos (buf s) + n \<le> length_buffer (buf s')
       \<and> length_buffer (buf s') < 2 * (pos (buf s) + n)"
proof -
  from write_bytes_success [OF assms(1,3)] obtain t where
    w: "expand_while (\<lambda>b. length_buffer b < pos b + n) ev s = Some (Inr (), t)"
    and t: "s' = copied t src n" "pos (buf t) = pos (buf s)"
      "pos (buf t) + n \<le> length_buffer (buf t)" by blast
  from expand_while_writer [OF assms(1) w] obtain j where
    j: "length_buffer (buf t) = length_buffer (buf s) * 2 ^ j" by blast
  note m = expand_while_least [OF assms(1) w assms(2)]
  have "0 < j"
  proof (rule ccontr)
    assume "\<not> 0 < j"
    then have "j = 0" by simp
    with j m show False by simp
  qed
  with j t m show ?thesis by (auto simp: copied_length)
qed

lemma write_byte_capacity:
  assumes "writer_ok s" "length_buffer (buf s) \<le> pos (buf s)"
    and "write_byte ev s c = Some (Inr u, s')"
  shows "(\<exists>k>0. length_buffer (buf s') = length_buffer (buf s) * 2 ^ k)
       \<and> pos (buf s) + 1 \<le> length_buffer (buf s')
       \<and> length_buffer (buf s') < 2 * (pos (buf s) + 1)"
proof -
  have c: "(\<lambda>b. length_buffer b \<le> pos b) = (\<lambda>b. length_buffer b < pos b + 1)"
    by (rule ext) auto
  from write_byte_success [OF assms(1,3)] obtain t where
    w: "expand_while (\<lambda>b. length_buffer b < pos b + 1) ev s = Some (Inr (), t)"
    and t: "s' = stored t (word_of_int c)" "pos (buf t) = pos (buf s)"
      "pos (buf t) < length_buffer (buf t)" unfolding c by blast
  from expand_while_writer [OF assms(1) w] obtain j where
    j: "length_buffer (buf t) = length_buffer (buf s) * 2 ^ j" by blast
  from assms(2) have "length_buffer (buf s) < pos (buf s) + 1" by simp
  note m = expand_while_least [OF assms(1) w this]
  have "0 < j"
  proof (rule ccontr)
    assume "\<not> 0 < j"
    then have "j = 0" by simp
    with j m show False by simp
  qed
  with j t m show ?thesis by (auto simp: stored_length)
qed

text \<open>Errors leave the writing call and \<open>pack_\<close> at once.\<close>

lemma R_Serialize_abort:
  assumes "R_Serialize ev pre s0 = Some (Inr v, s)" "out_call ev c s = Some (Inl e, t)"
  shows "R_Serialize ev (pre @ c # rest) s0 = Some (Inl e, t)"
  using assms
proof (induction pre arbitrary: s0)
  case Nil
  then show ?case by simp
next
  case (Cons a pre)
  from Cons.prems(1) obtain w s1 where a: "out_call ev a s0 = Some (Inr w, s1)"
    and r: "R_Serialize ev pre s1 = Some (Inr v, s)"
    by (auto split: option.splits sum.splits prod.splits)
  from Cons.IH [OF r Cons.prems(2)] a show ?case by simp
qed

lemma pack_abort:
  assumes "init_buffer ev 16384 = (Inr b0, lv)"
    and "R_Serialize ev cs \<lparr>buf = b0, live = lv\<rparr> = Some (Inl e, t)"
  shows "pack ev cs = Some (Inl e, live t)"
  using assms by (simp add: pack_def)

lemma out_call_capacity:
  assumes "writer_ok s" "R_XLEN_T_MAX < 2 * length_buffer (buf s)"
    and "length_buffer (buf s) < pos (buf s) + call_count c" "c \<noteq> EncodeError"
  shows "out_call ev c s =
     Some (Inl CapacityExceeded, s\<lparr>buf := (buf s)\<lparr>length_buffer := 2 * length_buffer (buf s)\<rparr>\<rparr>)"
proof -
  have e: "expand_buffer ev s =
      (Inl CapacityExceeded, s\<lparr>buf := (buf s)\<lparr>length_buffer := 2 * length_buffer (buf s)\<rparr>\<rparr>)"
    using assms(2) by (simp add: expand_buffer_writer [OF assms(1)] Let_def)
  show ?thesis
  proof (cases c)
    case (WriteByte x)
    with assms(3) have "length_buffer (buf s) \<le> pos (buf s)" by simp
    then have "write_byte ev s x =
        Some (Inl CapacityExceeded, s\<lparr>buf := (buf s)\<lparr>length_buffer := 2 * length_buffer (buf s)\<rparr>\<rparr>)"
      by (subst write_byte_unfold) (simp add: e)
    then show ?thesis by (simp add: WriteByte out_call_def)
  next
    case (WriteBytes src n)
    with assms(3) have "length_buffer (buf s) < pos (buf s) + n" by simp
    then have "write_bytes ev s src n =
        Some (Inl CapacityExceeded, s\<lparr>buf := (buf s)\<lparr>length_buffer := 2 * length_buffer (buf s)\<rparr>\<rparr>)"
      by (subst write_bytes_unfold) (simp add: e)
    then show ?thesis by (simp add: WriteBytes out_call_def)
  next
    case EncodeError
    with assms(4) show ?thesis by simp
  qed
qed

lemma init_buffer_writer:
  assumes "init_buffer ev 16384 = (Inr b0, lv)"
  shows "writer_ok \<lparr>buf = b0, live = lv\<rparr>" and "pos b0 = 0" and "lv = {BufStruct, BufData}"
    and "length_buffer b0 = 16384" and "committed b0 = []"
  using assms
  by (auto simp: init_buffer_def writer_ok_def buffer_ok_def R_XLEN_T_MAX_def size_t_of_def
      malloc_cells_def committed_def split: if_splits)

text \<open>The buffer \<open>pack_\<close> starts with, and its first growth step.\<close>

lemma fresh_writer_ok:
  "writer_ok \<lparr>buf = \<lparr>length_buffer = 16384, pos = 0, data = malloc_cells 16384\<rparr>,
              live = {BufStruct, BufData}\<rparr>"
  by (simp add: writer_ok_def buffer_ok_def malloc_cells_def R_XLEN_T_MAX_def)

lemma fresh_writer_expand:
  "length_buffer (buf (snd (expand_buffer unlimited
      \<lparr>buf = \<lparr>length_buffer = 16384, pos = 0, data = malloc_cells 16384\<rparr>,
        live = {BufStruct, BufData}\<rparr>))) = 32768"
  by (simp add: expand_buffer_writer [OF fresh_writer_ok] Let_def R_XLEN_T_MAX_def unlimited_def)

text \<open>
  Claim C8 as the spec states it fails: a growth step does not take the required minimum
  into account. On a writer with capacity 2 and cursor 2 an append of 7 bytes needs 9
  bytes; the first growth step gives capacity 4 and the append ends with capacity 16,
  neither of which is \<open>max (2 * 2) 9 = 9\<close>. On the buffer of \<open>pack_\<close> (capacity
  16384) with an append of 40000 bytes the first growth step gives 32768, not 40000.
\<close>

theorem growth_step_max_counterexample:
  "length_buffer (buf full_writer) < pos (buf full_writer) + 7
   \<and> expand_buffer unlimited full_writer
     = (Inr (), \<lparr>buf = \<lparr>length_buffer = 4, pos = 2, data = [Some 1, Some 2, None, None]\<rparr>,
                 live = {BufStruct, BufData}\<rparr>)
   \<and> length_buffer (buf (snd (expand_buffer unlimited full_writer)))
     \<noteq> max (length_buffer (buf full_writer) * 2) (pos (buf full_writer) + 7)
   \<and> write_bytes unlimited full_writer [10, 11, 12, 13, 14, 15, 16] 7
     = Some (Inr (), \<lparr>buf = \<lparr>length_buffer = 16, pos = 9,
                          data = [Some 1, Some 2, Some 10, Some 11, Some 12, Some 13, Some 14,
                                  Some 15, Some 16, None, None, None, None, None, None, None]\<rparr>,
                    live = {BufStruct, BufData}\<rparr>)
   \<and> (16 :: int) \<noteq> max (length_buffer (buf full_writer) * 2) (pos (buf full_writer) + 7)
   \<and> length_buffer (buf (snd (expand_buffer unlimited
        \<lparr>buf = \<lparr>length_buffer = 16384, pos = 0, data = malloc_cells 16384\<rparr>,
          live = {BufStruct, BufData}\<rparr>)))
     \<noteq> max (16384 * 2) (0 + 40000)"
  using full_writer_expand full_writer_bulk fresh_writer_expand by (simp add: full_writer_def)

text \<open>
  Claim C8, amended. On a well-formed writer each successful growth step sets the
  capacity to exactly twice the old one; an append that exceeds the capacity repeats the
  step until the capacity reaches the required minimum \<open>pos + n\<close>, so it ends with the
  first doubling that suffices. When the doubled capacity exceeds \<open>R_XLEN_T_MAX\<close> the
  step raises \<open>CapacityExceeded\<close> before \<open>realloc\<close> is called (the block and the
  set of allocated blocks are as before, whatever the allocator would answer), and a
  write call of \<open>pack_\<close> that runs into it ends \<open>pack_\<close> with that error, the
  remaining calls not made.
\<close>

theorem growth_doubles_until_sufficient:
  assumes "writer_ok s"
  shows "(expand_buffer ev s = (Inr u, s') \<longrightarrow>
            length_buffer (buf s') = 2 * length_buffer (buf s))
       \<and> (length_buffer (buf s) < pos (buf s) + n \<and> write_bytes ev s src n = Some (Inr u, s') \<longrightarrow>
            (\<exists>k>0. length_buffer (buf s') = length_buffer (buf s) * 2 ^ k)
            \<and> pos (buf s) + n \<le> length_buffer (buf s')
            \<and> length_buffer (buf s') < 2 * (pos (buf s) + n))
       \<and> (length_buffer (buf s) \<le> pos (buf s) \<and> write_byte ev s c = Some (Inr u, s') \<longrightarrow>
            (\<exists>k>0. length_buffer (buf s') = length_buffer (buf s) * 2 ^ k)
            \<and> pos (buf s) + 1 \<le> length_buffer (buf s')
            \<and> length_buffer (buf s') < 2 * (pos (buf s) + 1))
       \<and> (R_XLEN_T_MAX < 2 * length_buffer (buf s) \<longrightarrow>
            expand_buffer ev s =
              (Inl CapacityExceeded,
               s\<lparr>buf := (buf s)\<lparr>length_buffer := 2 * length_buffer (buf s)\<rparr>\<rparr>))
       \<and> (R_XLEN_T_MAX < 2 * length_buffer (buf s)
            \<and> length_buffer (buf s) < pos (buf s) + call_count w \<and> w \<noteq> EncodeError
            \<and> init_buffer ev 16384 = (Inr bnew, lv)
            \<and> R_Serialize ev pre \<lparr>buf = bnew, live = lv\<rparr> = Some (Inr v, s) \<longrightarrow>
            pack ev (pre @ w # rest) = Some (Inl CapacityExceeded, live s))"
proof -
  have a: "expand_buffer ev s = (Inr u, s') \<longrightarrow>
            length_buffer (buf s') = 2 * length_buffer (buf s)"
    using expand_buffer_writer_ok(2) [OF assms, of ev u s'] by blast
  have b: "length_buffer (buf s) < pos (buf s) + n \<and> write_bytes ev s src n = Some (Inr u, s') \<longrightarrow>
            (\<exists>k>0. length_buffer (buf s') = length_buffer (buf s) * 2 ^ k)
            \<and> pos (buf s) + n \<le> length_buffer (buf s')
            \<and> length_buffer (buf s') < 2 * (pos (buf s) + n)"
    using write_bytes_capacity [OF assms, of n ev src u s'] by blast
  have c: "length_buffer (buf s) \<le> pos (buf s) \<and> write_byte ev s c = Some (Inr u, s') \<longrightarrow>
            (\<exists>k>0. length_buffer (buf s') = length_buffer (buf s) * 2 ^ k)
            \<and> pos (buf s) + 1 \<le> length_buffer (buf s')
            \<and> length_buffer (buf s') < 2 * (pos (buf s) + 1)"
    using write_byte_capacity [OF assms, of ev c u s'] by blast
  have d: "R_XLEN_T_MAX < 2 * length_buffer (buf s) \<longrightarrow>
            expand_buffer ev s =
              (Inl CapacityExceeded,
               s\<lparr>buf := (buf s)\<lparr>length_buffer := 2 * length_buffer (buf s)\<rparr>\<rparr>)"
    by (simp add: expand_buffer_writer [OF assms] Let_def)
  have e: "R_XLEN_T_MAX < 2 * length_buffer (buf s)
            \<and> length_buffer (buf s) < pos (buf s) + call_count w \<and> w \<noteq> EncodeError
            \<and> init_buffer ev 16384 = (Inr bnew, lv)
            \<and> R_Serialize ev pre \<lparr>buf = bnew, live = lv\<rparr> = Some (Inr v, s) \<longrightarrow>
            pack ev (pre @ w # rest) = Some (Inl CapacityExceeded, live s)"
  proof
    assume h: "R_XLEN_T_MAX < 2 * length_buffer (buf s)
            \<and> length_buffer (buf s) < pos (buf s) + call_count w \<and> w \<noteq> EncodeError
            \<and> init_buffer ev 16384 = (Inr bnew, lv)
            \<and> R_Serialize ev pre \<lparr>buf = bnew, live = lv\<rparr> = Some (Inr v, s)"
    then have o: "out_call ev w s = Some (Inl CapacityExceeded,
        s\<lparr>buf := (buf s)\<lparr>length_buffer := 2 * length_buffer (buf s)\<rparr>\<rparr>)"
      using out_call_capacity [OF assms, of w ev] by blast
    from h have i: "init_buffer ev 16384 = (Inr bnew, lv)"
      and r: "R_Serialize ev pre \<lparr>buf = bnew, live = lv\<rparr> = Some (Inr v, s)" by simp_all
    from pack_abort [OF i R_Serialize_abort [OF r o, of rest]]
    show "pack ev (pre @ w # rest) = Some (Inl CapacityExceeded, live s)" by simp
  qed
  from a b c d e show ?thesis by blast
qed

text \<open>With an allocator that grants everything, a capacity that is \<open>R_XLEN_T_MAX\<close> divided
  by a power of two and a demand within \<open>R_XLEN_T_MAX\<close>, the loop ends without an error,
  at a capacity of the same kind.\<close>

lemma expand_while_succeeds:
  assumes "writer_ok s" "\<forall>m. malloc_ok ev m"
    and "length_buffer (buf s) * 2 ^ k = R_XLEN_T_MAX" "pos (buf s) + n \<le> R_XLEN_T_MAX"
  shows "\<exists>t j. expand_while (\<lambda>b. length_buffer b < pos b + n) ev s = Some (Inr (), t)
            \<and> length_buffer (buf t) * 2 ^ j = R_XLEN_T_MAX"
  using assms
proof (induction k arbitrary: s)
  case 0
  then have "\<not> length_buffer (buf s) < pos (buf s) + n" by simp
  then have "expand_while (\<lambda>b. length_buffer b < pos b + n) ev s = Some (Inr (), s)"
    by (subst expand_while.simps) simp
  with "0.prems"(3) show ?case by blast
next
  case (Suc k)
  show ?case
  proof (cases "length_buffer (buf s) < pos (buf s) + n")
    case False
    then have "expand_while (\<lambda>b. length_buffer b < pos b + n) ev s = Some (Inr (), s)"
      by (subst expand_while.simps) simp
    with Suc.prems(3) show ?thesis by blast
  next
    case True
    from Suc.prems(3) have le: "2 * length_buffer (buf s) * 2 ^ k = R_XLEN_T_MAX" by simp
    have l0: "0 < length_buffer (buf s)" using Suc.prems(1) by (simp add: writer_ok_def)
    have "2 * length_buffer (buf s) * 1 \<le> 2 * length_buffer (buf s) * 2 ^ k"
      using l0 by (intro mult_left_mono) simp_all
    with le have fit: "\<not> R_XLEN_T_MAX < 2 * length_buffer (buf s)" by simp
    define s' where "s' = s\<lparr>buf := (buf s)\<lparr>length_buffer := 2 * length_buffer (buf s),
        data := data (buf s) @ replicate (length (data (buf s))) None\<rparr>\<rparr>"
    have e: "expand_buffer ev s = (Inr (), s')"
      using fit Suc.prems(2) by (simp add: expand_buffer_writer [OF Suc.prems(1)] Let_def s'_def)
    note f = expand_buffer_writer_ok [OF Suc.prems(1) e]
    have "length_buffer (buf s') * 2 ^ k = R_XLEN_T_MAX" using le f(2) by simp
    moreover have "pos (buf s') + n \<le> R_XLEN_T_MAX" using Suc.prems(4) f(3) by simp
    ultimately obtain t j where
      "expand_while (\<lambda>b. length_buffer b < pos b + n) ev s' = Some (Inr (), t)"
      "length_buffer (buf t) * 2 ^ j = R_XLEN_T_MAX"
      using Suc.IH [OF f(1) Suc.prems(2)] by blast
    moreover from True e have "expand_while (\<lambda>b. length_buffer b < pos b + n) ev s
        = expand_while (\<lambda>b. length_buffer b < pos b + n) ev s'"
      by (subst expand_while.simps) simp
    ultimately show ?thesis by auto
  qed
qed

lemma write_bytes_succeeds:
  assumes "writer_ok s" "\<forall>m. malloc_ok ev m"
    and "length_buffer (buf s) * 2 ^ k = R_XLEN_T_MAX" "pos (buf s) + n \<le> R_XLEN_T_MAX"
    and "0 \<le> n" "n \<le> int (length src)"
  shows "\<exists>s' j. write_bytes ev s src n = Some (Inr (), s') \<and> writer_ok s'
            \<and> pos (buf s') = pos (buf s) + n \<and> live s' = live s
            \<and> length_buffer (buf s') * 2 ^ j = R_XLEN_T_MAX"
proof -
  from expand_while_succeeds [OF assms(1-4)] obtain t j where
    w: "expand_while (\<lambda>b. length_buffer b < pos b + n) ev s = Some (Inr (), t)"
    and j: "length_buffer (buf t) * 2 ^ j = R_XLEN_T_MAX" by blast
  from expand_while_writer [OF assms(1) w]
  have okt: "writer_ok t" and lt: "live t = live s" and pt: "pos (buf t) = pos (buf s)"
    by simp_all
  from expand_while_exit [OF w] have ex: "pos (buf t) + n \<le> length_buffer (buf t)" by simp
  have d: "0 \<le> pos (buf t)" "int (length (data (buf t))) = length_buffer (buf t)"
    using okt by (simp_all add: writer_ok_def buffer_ok_def)
  have wb: "write_bytes ev s src n = Some (Inr (), copied t src n)"
    unfolding write_bytes_cases w using assms(5,6) ex d by simp
  note c = copied_writer [OF okt assms(5,6) ex]
  from wb c(1) c(3) c(4) c(5) pt lt j show ?thesis by auto
qed

text \<open>Equal bulk calls in a row, as long as their bytes stay within \<open>R_XLEN_T_MAX\<close>.\<close>

lemma chunks_succeed:
  assumes "writer_ok s" "\<forall>m. malloc_ok ev m"
    and "length_buffer (buf s) * 2 ^ k = R_XLEN_T_MAX"
    and "pos (buf s) + int m * n \<le> R_XLEN_T_MAX"
    and "0 \<le> n" "n \<le> int (length src)"
  shows "\<exists>s'. R_Serialize ev (replicate m (WriteBytes src n)) s = Some (Inr (), s')
            \<and> writer_ok s' \<and> pos (buf s') = pos (buf s) + int m * n \<and> live s' = live s"
  using assms(1,3,4)
proof (induction m arbitrary: s k)
  case 0
  then show ?case by simp
next
  case (Suc m)
  have "0 \<le> int m * n" using assms(5) by simp
  with Suc.prems(3) have fit: "pos (buf s) + n \<le> R_XLEN_T_MAX"
    by (simp add: distrib_right)
  from write_bytes_succeeds [OF Suc.prems(1) assms(2) Suc.prems(2) fit assms(5,6)]
  obtain s1 j where w: "write_bytes ev s src n = Some (Inr (), s1)" and ok1: "writer_ok s1"
    and p1: "pos (buf s1) = pos (buf s) + n" and l1: "live s1 = live s"
    and j: "length_buffer (buf s1) * 2 ^ j = R_XLEN_T_MAX" by blast
  have "pos (buf s1) + int m * n \<le> R_XLEN_T_MAX"
    using Suc.prems(3) p1 by (simp add: distrib_right)
  from Suc.IH [OF ok1 j this] obtain s' where
    "R_Serialize ev (replicate m (WriteBytes src n)) s1 = Some (Inr (), s')"
    "writer_ok s'" "pos (buf s') = pos (buf s1) + int m * n" "live s' = live s1" by blast
  with w p1 l1 show ?case by (simp add: out_call_def distrib_right)
qed

lemma unlimited_grants: "\<forall>m. malloc_ok unlimited m"
  by (simp add: unlimited_def)

lemma init_buffer_unlimited:
  "init_buffer unlimited 16384
     = (Inr \<lparr>length_buffer = 16384, pos = 0, data = malloc_cells 16384\<rparr>, {BufStruct, BufData})"
  by (simp add: init_buffer_def unlimited_def size_t_of_def)

text \<open>\<open>2^22\<close> bulk calls of \<open>2^30\<close> bytes each fill the buffer of \<open>pack_\<close> up to
  \<open>R_XLEN_T_MAX\<close>.\<close>

lemma fill_to_limit:
  "\<exists>s. R_Serialize unlimited
          (replicate 4194304 (WriteBytes (replicate 1073741824 0) 1073741824))
          \<lparr>buf = \<lparr>length_buffer = 16384, pos = 0, data = malloc_cells 16384\<rparr>,
             live = {BufStruct, BufData}\<rparr> = Some (Inr (), s)
       \<and> writer_ok s \<and> length_buffer (buf s) = R_XLEN_T_MAX \<and> pos (buf s) = R_XLEN_T_MAX
       \<and> live s = {BufStruct, BufData}"
proof -
  let ?s0 = "\<lparr>buf = \<lparr>length_buffer = 16384, pos = 0, data = malloc_cells 16384\<rparr>,
             live = {BufStruct, BufData}\<rparr>"
  have k: "length_buffer (buf ?s0) * 2 ^ 38 = R_XLEN_T_MAX" by (simp add: R_XLEN_T_MAX_def)
  have d: "pos (buf ?s0) + int 4194304 * 1073741824 \<le> R_XLEN_T_MAX"
    by (simp add: R_XLEN_T_MAX_def)
  have n: "(0 :: int) \<le> 1073741824" "1073741824 \<le> int (length (replicate 1073741824 (0 :: byte)))"
    by simp_all
  from chunks_succeed [OF fresh_writer_ok unlimited_grants k d n] obtain s where
    r: "R_Serialize unlimited
          (replicate 4194304 (WriteBytes (replicate 1073741824 0) 1073741824)) ?s0
        = Some (Inr (), s)"
    and s: "writer_ok s" "pos (buf s) = pos (buf ?s0) + int 4194304 * 1073741824"
      "live s = live ?s0" by blast
  from s(2) have p: "pos (buf s) = R_XLEN_T_MAX" by (simp add: R_XLEN_T_MAX_def)
  have "pos (buf s) \<le> length_buffer (buf s)" "length_buffer (buf s) \<le> R_XLEN_T_MAX"
    using s(1) by (simp_all add: writer_ok_def buffer_ok_def)
  with p have "length_buffer (buf s) = R_XLEN_T_MAX" by simp
  with r s(1,3) p show ?thesis by auto
qed

theorem growth_doubles_until_sufficient_witness:
  "writer_ok full_writer
   \<and> expand_buffer unlimited full_writer
     = (Inr (), \<lparr>buf = \<lparr>length_buffer = 4, pos = 2, data = [Some 1, Some 2, None, None]\<rparr>,
                 live = {BufStruct, BufData}\<rparr>)
   \<and> (4 :: int) = 2 * length_buffer (buf full_writer)
   \<and> write_bytes unlimited full_writer [10, 11, 12, 13, 14, 15, 16] 7
     = Some (Inr (), \<lparr>buf = \<lparr>length_buffer = 16, pos = 9,
                          data = [Some 1, Some 2, Some 10, Some 11, Some 12, Some 13, Some 14,
                                  Some 15, Some 16, None, None, None, None, None, None, None]\<rparr>,
                    live = {BufStruct, BufData}\<rparr>)
   \<and> (\<exists>k>0. (16 :: int) = length_buffer (buf full_writer) * 2 ^ k)
   \<and> pack unlimited
       (replicate 4194304 (WriteBytes (replicate 1073741824 0) 1073741824) @ [WriteByte 0])
     = Some (Inl CapacityExceeded, {BufStruct, BufData})"
proof -
  note t = growth_doubles_until_sufficient [OF full_writer_ok, where ev = unlimited and u = "()"]
  have a: "(4 :: int) = 2 * length_buffer (buf full_writer)"
    using t [where s' = "\<lparr>buf = \<lparr>length_buffer = 4, pos = 2,
        data = [Some 1, Some 2, None, None]\<rparr>, live = {BufStruct, BufData}\<rparr>"]
      full_writer_expand by simp
  have need: "length_buffer (buf full_writer) < pos (buf full_writer) + 7"
    by (simp add: full_writer_def)
  have b: "\<exists>k>0. (16 :: int) = length_buffer (buf full_writer) * 2 ^ k"
    using t [where src = "[10, 11, 12, 13, 14, 15, 16]" and n = 7
        and s' = "\<lparr>buf = \<lparr>length_buffer = 16, pos = 9,
                          data = [Some 1, Some 2, Some 10, Some 11, Some 12, Some 13, Some 14,
                                  Some 15, Some 16, None, None, None, None, None, None, None]\<rparr>,
                    live = {BufStruct, BufData}\<rparr>"]
      need full_writer_bulk by simp
  from fill_to_limit obtain s where
    r: "R_Serialize unlimited
          (replicate 4194304 (WriteBytes (replicate 1073741824 0) 1073741824))
          \<lparr>buf = \<lparr>length_buffer = 16384, pos = 0, data = malloc_cells 16384\<rparr>,
             live = {BufStruct, BufData}\<rparr> = Some (Inr (), s)"
    and s: "writer_ok s" "length_buffer (buf s) = R_XLEN_T_MAX" "pos (buf s) = R_XLEN_T_MAX"
      "live s = {BufStruct, BufData}" by blast
  have big: "R_XLEN_T_MAX < 2 * length_buffer (buf s)"
    "length_buffer (buf s) < pos (buf s) + call_count (WriteByte 0)" "WriteByte 0 \<noteq> EncodeError"
    using s(2,3) by (simp_all add: R_XLEN_T_MAX_def)
  have c: "pack unlimited
      (replicate 4194304 (WriteBytes (replicate 1073741824 0) 1073741824) @ WriteByte 0 # [])
     = Some (Inl CapacityExceeded, live s)"
    using growth_doubles_until_sufficient [OF s(1), where ev = unlimited and w = "WriteByte 0"
        and pre = "replicate 4194304 (WriteBytes (replicate 1073741824 0) 1073741824)"
        and rest = "[]" and v = "()"
        and bnew = "\<lparr>length_buffer = 16384, pos = 0, data = malloc_cells 16384\<rparr>"
        and lv = "{BufStruct, BufData}"]
      big init_buffer_unlimited r by blast
  from a b c s(4) full_writer_ok full_writer_expand full_writer_bulk show ?thesis by simp
qed

section \<open>The entry points\<close>

lemma length_malloc_cells: "length (malloc_cells n) = n"
  by (simp add: malloc_cells_def)

lemma stored_data_length: "length (data (buf (stored t x))) = length (data (buf t))"
  by (simp add: stored_def)

lemma bytes_at_committed:
  assumes "writer_ok s"
  shows "bytes_at (data (buf s)) 0 (pos (buf s)) = Some (map the (committed (buf s)))"
  using assms
  by (simp add: bytes_at_def writer_ok_def buffer_ok_def committed_def)

text \<open>What \<open>pack_\<close> returns once \<open>R_Serialize\<close> has returned: the bytes of the calls, in
  their order, with both blocks freed, unless \<open>allocVector\<close> fails.\<close>

lemma pack_of_serialize:
  assumes "init_buffer ev 16384 = (Inr bnew, lv)"
    and "R_Serialize ev cs \<lparr>buf = bnew, live = lv\<rparr> = Some (Inr u, s)"
  shows "pack ev cs =
     (if allocVector_ok ev (nat (pos (buf s))) then Some (Inr (emitted cs), {})
      else Some (Inl AllocationFailure, {BufStruct, BufData}))"
    and "pos (buf s) = appended cs" and "0 \<le> appended cs"
proof -
  note i = init_buffer_writer [OF assms(1)]
  from R_Serialize_writer [OF i(1) assms(2)] i(3,5)
  have ok: "writer_ok s" and cm: "committed (buf s) = map Some (emitted cs)"
    and lv: "live s = {BufStruct, BufData}" by simp_all
  have p0: "0 \<le> pos (buf s)" using ok by (simp add: writer_ok_def buffer_ok_def)
  have b: "bytes_at (data (buf s)) 0 (pos (buf s)) = Some (emitted cs)"
    unfolding bytes_at_committed [OF ok] cm by (simp add: comp_def)
  have "{BufStruct, BufData} - {BufData} - {BufStruct} = ({} :: blk set)" by auto
  then show "pack ev cs =
     (if allocVector_ok ev (nat (pos (buf s))) then Some (Inr (emitted cs), {})
      else Some (Inl AllocationFailure, {BufStruct, BufData}))"
    using p0 by (simp add: pack_def assms b lv)
  from R_Serialize_pos [OF assms(2)] i(2) show "pos (buf s) = appended cs" by simp
  with p0 show "0 \<le> appended cs" by simp
qed

lemma pack_success:
  assumes "pack ev cs = Some (Inr raw, lvl)"
  shows "raw = emitted cs" and "lvl = {}" and "int (length raw) = appended cs"
    and "\<exists>bnew lv u s. init_buffer ev 16384 = (Inr bnew, lv)
          \<and> R_Serialize ev cs \<lparr>buf = bnew, live = lv\<rparr> = Some (Inr u, s) \<and> writer_ok s
          \<and> writer_ok  \<lparr>buf = bnew, live = lv\<rparr>"
proof -
  from assms obtain bnew lv u s where i: "init_buffer ev 16384 = (Inr bnew, lv)"
    and r: "R_Serialize ev cs \<lparr>buf = bnew, live = lv\<rparr> = Some (Inr u, s)"
    by (auto simp: pack_def split: prod.splits sum.splits option.splits if_splits)
  note p = pack_of_serialize [OF i r]
  from assms p(1) show a: "raw = emitted cs" and "lvl = {}" by (auto split: if_splits)
  note w = init_buffer_writer [OF i]
  from R_Serialize_writer [OF w(1) r] w(5)
  have ok: "writer_ok s" and cm: "committed (buf s) = map Some (emitted cs)" by simp_all
  have "length (committed (buf s)) = nat (pos (buf s))" by (rule committed_length [OF ok])
  with cm p(2,3) a show "int (length raw) = appended cs" by simp
  from i r ok w(1) show "\<exists>bnew lv u s. init_buffer ev 16384 = (Inr bnew, lv)
          \<and> R_Serialize ev cs \<lparr>buf = bnew, live = lv\<rparr> = Some (Inr u, s) \<and> writer_ok s
          \<and> writer_ok  \<lparr>buf = bnew, live = lv\<rparr>" by blast
qed

text \<open>Every call sequence returns on a well-formed writer, and so does \<open>pack_\<close>.\<close>

lemma out_call_returns:
  assumes "writer_ok s"
  shows "\<exists>r. out_call ev c s = Some r"
  using write_byte_returns [OF assms] write_bytes_returns [OF assms]
  by (cases c) (simp_all add: out_call_def)

lemma R_Serialize_returns:
  assumes "writer_ok s"
  shows "\<exists>r. R_Serialize ev cs s = Some r"
  using assms
proof (induction cs arbitrary: s)
  case Nil
  then show ?case by simp
next
  case (Cons c cs)
  from out_call_returns [OF Cons.prems] obtain x t where o: "out_call ev c s = Some (x, t)"
    by (metis surj_pair)
  show ?case
  proof (cases x)
    case (Inl e)
    with o show ?thesis by simp
  next
    case (Inr u)
    from out_call_writer(1) [OF Cons.prems o [unfolded Inr]] have "writer_ok t" .
    from Cons.IH [OF this] o Inr show ?thesis by simp
  qed
qed

lemma pack_returns: "\<exists>r. pack ev cs = Some r"
proof -
  obtain x lv where i: "init_buffer ev 16384 = (x, lv)" by (cases "init_buffer ev 16384")
  show ?thesis
  proof (cases x)
    case (Inl e)
    with i show ?thesis by (simp add: pack_def)
  next
    case (Inr bnew)
    note w = init_buffer_writer(1) [OF i [unfolded Inr]]
    from R_Serialize_returns [OF w] obtain y t where
      r: "R_Serialize ev cs \<lparr>buf = bnew, live = lv\<rparr> = Some (y, t)" by (metis surj_pair)
    show ?thesis
    proof (cases y)
      case (Inl e)
      with i Inr r show ?thesis by (simp add: pack_def)
    next
      case (Inr u)
      with i \<open>x = Inr bnew\<close> r show ?thesis
        by (simp add: pack_def split: option.splits)
    qed
  qed
qed

text \<open>With an allocator that grants everything, a capacity that is \<open>R_XLEN_T_MAX\<close> divided
  by a power of two and calls that stay within \<open>R_XLEN_T_MAX\<close>, every call succeeds.\<close>

lemma write_byte_succeeds:
  assumes "writer_ok s" "\<forall>m. malloc_ok ev m"
    and "length_buffer (buf s) * 2 ^ k = R_XLEN_T_MAX" "pos (buf s) + 1 \<le> R_XLEN_T_MAX"
  shows "\<exists>s' j. write_byte ev s c = Some (Inr (), s') \<and> writer_ok s'
            \<and> pos (buf s') = pos (buf s) + 1 \<and> live s' = live s
            \<and> length_buffer (buf s') * 2 ^ j = R_XLEN_T_MAX"
proof -
  have c: "(\<lambda>b. length_buffer b \<le> pos b) = (\<lambda>b. length_buffer b < pos b + 1)"
    by (rule ext) auto
  from expand_while_succeeds [OF assms(1-4)] obtain t j where
    w: "expand_while (\<lambda>b. length_buffer b \<le> pos b) ev s = Some (Inr (), t)"
    and j: "length_buffer (buf t) * 2 ^ j = R_XLEN_T_MAX" unfolding c by blast
  from expand_while_writer [OF assms(1) w]
  have okt: "writer_ok t" and lt: "live t = live s" and pt: "pos (buf t) = pos (buf s)"
    by simp_all
  from expand_while_exit [OF w] have ex: "pos (buf t) < length_buffer (buf t)" by simp
  have d: "0 \<le> pos (buf t)" "int (length (data (buf t))) = length_buffer (buf t)"
    using okt by (simp_all add: writer_ok_def buffer_ok_def)
  have wb: "write_byte ev s c = Some (Inr (), stored t (word_of_int c))"
    unfolding write_byte_cases w using ex d by simp
  note st = stored_writer [OF okt ex, of "word_of_int c"]
  from wb st(1) st(3) st(4) st(5) pt lt j show ?thesis by auto
qed

lemma out_call_succeeds:
  assumes "writer_ok s" "\<forall>m. malloc_ok ev m"
    and "length_buffer (buf s) * 2 ^ k = R_XLEN_T_MAX"
    and "pos (buf s) + call_count c \<le> R_XLEN_T_MAX" "call_ok c"
  shows "\<exists>s' j. out_call ev c s = Some (Inr (), s') \<and> writer_ok s'
            \<and> pos (buf s') = pos (buf s) + call_count c \<and> live s' = live s
            \<and> length_buffer (buf s') * 2 ^ j = R_XLEN_T_MAX"
proof (cases c)
  case (WriteByte x)
  with assms(4) have "pos (buf s) + 1 \<le> R_XLEN_T_MAX" by simp
  from write_byte_succeeds [OF assms(1-3) this, of x] show ?thesis
    by (simp add: WriteByte out_call_def)
next
  case (WriteBytes src n)
  with assms(4,5) have "pos (buf s) + n \<le> R_XLEN_T_MAX" "0 \<le> n" "n \<le> int (length src)"
    by simp_all
  from write_bytes_succeeds [OF assms(1-3) this] show ?thesis
    by (simp add: WriteBytes out_call_def)
next
  case EncodeError
  with assms(5) show ?thesis by simp
qed

lemma appended_nonneg: "list_all call_ok cs \<Longrightarrow> 0 \<le> appended cs"
proof (induction cs)
  case Nil
  then show ?case by (simp add: appended_def)
next
  case (Cons c cs)
  then have "0 \<le> call_count c" by (cases c) simp_all
  with Cons show ?case by (simp add: appended_def)
qed

lemma calls_succeed:
  assumes "\<forall>m. malloc_ok ev m"
    and "writer_ok s" "length_buffer (buf s) * 2 ^ k = R_XLEN_T_MAX"
    and "pos (buf s) + appended cs \<le> R_XLEN_T_MAX" "list_all call_ok cs"
  shows "\<exists>s'. R_Serialize ev cs s = Some (Inr (), s') \<and> writer_ok s'
            \<and> pos (buf s') = pos (buf s) + appended cs \<and> live s' = live s"
  using assms(2-5)
proof (induction cs arbitrary: s k)
  case Nil
  then show ?case by (simp add: appended_def)
next
  case (Cons c cs)
  from Cons.prems(4) have ok: "call_ok c" "list_all call_ok cs" by simp_all
  have ap: "appended (c # cs) = call_count c + appended cs" by (simp add: appended_def)
  from appended_nonneg [OF ok(2)] Cons.prems(3) ap
  have fit: "pos (buf s) + call_count c \<le> R_XLEN_T_MAX" by simp
  from out_call_succeeds [OF Cons.prems(1) assms(1) Cons.prems(2) fit ok(1)]
  obtain s1 j where o: "out_call ev c s = Some (Inr (), s1)" and ok1: "writer_ok s1"
    and p1: "pos (buf s1) = pos (buf s) + call_count c" and l1: "live s1 = live s"
    and j: "length_buffer (buf s1) * 2 ^ j = R_XLEN_T_MAX" by blast
  have "pos (buf s1) + appended cs \<le> R_XLEN_T_MAX" using Cons.prems(3) p1 ap by simp
  from Cons.IH [OF ok1 j this ok(2)] obtain s' where
    "R_Serialize ev cs s1 = Some (Inr (), s')" "writer_ok s'"
    "pos (buf s') = pos (buf s1) + appended cs" "live s' = live s1" by blast
  with o p1 l1 ap show ?case by simp
qed

text \<open>\<open>pack_\<close> with every allocation granted: any sequence of well-formed calls of at most
  \<open>R_XLEN_T_MAX\<close> bytes ends with the raw vector of exactly the bytes handed over, both
  blocks freed, through as many growth steps as the bytes need.\<close>

lemma pack_granted:
  assumes "\<forall>m. malloc_ok ev m" "\<forall>m. allocVector_ok ev m"
    and "list_all call_ok cs" "appended cs \<le> R_XLEN_T_MAX"
  shows "pack ev cs = Some (Inr (emitted cs), {})"
    and "\<exists>s. R_Serialize ev cs
            \<lparr>buf = \<lparr>length_buffer = 16384, pos = 0, data = malloc_cells 16384\<rparr>,
               live = {BufStruct, BufData}\<rparr> = Some (Inr (), s)
          \<and> appended cs \<le> length_buffer (buf s)"
proof -
  let ?s0 = "\<lparr>buf = \<lparr>length_buffer = 16384, pos = 0, data = malloc_cells 16384\<rparr>,
             live = {BufStruct, BufData}\<rparr>"
  have i: "init_buffer ev 16384
      = (Inr \<lparr>length_buffer = 16384, pos = 0, data = malloc_cells 16384\<rparr>, {BufStruct, BufData})"
    using assms(1) by (simp add: init_buffer_def size_t_of_def)
  have k: "length_buffer (buf ?s0) * 2 ^ 38 = R_XLEN_T_MAX" by (simp add: R_XLEN_T_MAX_def)
  have d: "pos (buf ?s0) + appended cs \<le> R_XLEN_T_MAX" using assms(4) by simp
  from calls_succeed [OF assms(1) fresh_writer_ok k d assms(3)] obtain s where
    r: "R_Serialize ev cs ?s0 = Some (Inr (), s)" and s: "writer_ok s"
      "pos (buf s) = pos (buf ?s0) + appended cs" by blast
  from pack_of_serialize(1) [OF i r] assms(2)
  show "pack ev cs = Some (Inr (emitted cs), {})" by simp
  have "pos (buf s) \<le> length_buffer (buf s)" using s(1) by (simp add: writer_ok_def buffer_ok_def)
  with s(2) r show "\<exists>s. R_Serialize ev cs ?s0 = Some (Inr (), s)
          \<and> appended cs \<le> length_buffer (buf s)" by auto
qed

text \<open>The same run from the buffer \<open>pack_\<close> starts with, every allocation granted: the
  capacity at the end holds all the bytes handed over, so it has grown whenever they are
  more than 16384.\<close>

lemma serialize_grown:
  assumes "list_all call_ok cs" "appended cs \<le> R_XLEN_T_MAX"
  shows "\<exists>s. R_Serialize unlimited cs
            \<lparr>buf = \<lparr>length_buffer = 16384, pos = 0, data = malloc_cells 16384\<rparr>,
               live = {BufStruct, BufData}\<rparr> = Some (Inr (), s)
          \<and> appended cs \<le> length_buffer (buf s)"
  by (rule pack_granted(2) [OF _ _ assms]) (simp_all add: unlimited_def)

text \<open>
  Claim C9 fails in the code. The claim says that every failure path of \<open>pack_\<close> and
  \<open>unpack_\<close> releases what the call has allocated. Only the \<open>realloc\<close> failure in
  \<open>expand_buffer\<close> frees the two blocks before it raises (last conjunct). When the
  second \<open>malloc\<close> of \<open>init_buffer\<close> fails the struct stays allocated; an error of
  \<open>R_Serialize\<close> and the capacity error of \<open>expand_buffer\<close> leave both blocks
  allocated; an error under \<open>R_Unserialize\<close>, such as the underrun of \<open>read_byte\<close>
  on an empty vector, leaves the struct of \<open>unpack_\<close> allocated.
\<close>

theorem failure_paths_keep_blocks:
  "pack \<lparr>malloc_ok = (\<lambda>n. n = sizeof_buffer), allocVector_ok = (\<lambda>n. True)\<rparr> []
     = Some (Inl AllocationFailure, {BufStruct})
   \<and> pack unlimited [EncodeError] = Some (Inl EngineEncodingError, {BufStruct, BufData})
   \<and> pack unlimited
       (replicate 4194304 (WriteBytes (replicate 1073741824 0) 1073741824) @ [WriteByte 0])
     = Some (Inl CapacityExceeded, {BufStruct, BufData})
   \<and> unpack unlimited (ReadByte Return) (RAWSXP []) = (Inl BufferUnderrun, {BufStruct})
   \<and> pack \<lparr>malloc_ok = (\<lambda>n. n \<le> 16384), allocVector_ok = (\<lambda>n. True)\<rparr>
        [WriteBytes (replicate 16385 0) 16385]
     = Some (Inl AllocationFailure, {})"
proof -
  have a: "pack \<lparr>malloc_ok = (\<lambda>n. n = sizeof_buffer), allocVector_ok = (\<lambda>n. True)\<rparr> []
     = Some (Inl AllocationFailure, {BufStruct})"
    by (simp add: pack_def init_buffer_def sizeof_buffer_def size_t_of_def)
  have b: "pack unlimited [EncodeError] = Some (Inl EngineEncodingError, {BufStruct, BufData})"
    by (simp add: pack_def init_buffer_unlimited out_call_def)
  have c: "pack unlimited
       (replicate 4194304 (WriteBytes (replicate 1073741824 0) 1073741824) @ [WriteByte 0])
     = Some (Inl CapacityExceeded, {BufStruct, BufData})"
  proof -
    from fill_to_limit obtain s where
      r: "R_Serialize unlimited
          (replicate 4194304 (WriteBytes (replicate 1073741824 0) 1073741824))
          \<lparr>buf = \<lparr>length_buffer = 16384, pos = 0, data = malloc_cells 16384\<rparr>,
             live = {BufStruct, BufData}\<rparr> = Some (Inr (), s)"
      and s: "writer_ok s" "length_buffer (buf s) = R_XLEN_T_MAX" "pos (buf s) = R_XLEN_T_MAX"
        "live s = {BufStruct, BufData}" by blast
    have big: "R_XLEN_T_MAX < 2 * length_buffer (buf s)"
      "length_buffer (buf s) < pos (buf s) + call_count (WriteByte 0)"
      using s(2,3) by (simp_all add: R_XLEN_T_MAX_def)
    note o = out_call_capacity [OF s(1) big, of unlimited]
    from pack_abort [OF init_buffer_unlimited R_Serialize_abort [OF r o, of "[]"]] s(4)
    show ?thesis by simp
  qed
  have d: "unpack unlimited (ReadByte Return) (RAWSXP []) = (Inl BufferUnderrun, {BufStruct})"
    by (simp add: unpack_def unlimited_def reader_over_def read_byte_def)
  have e: "pack \<lparr>malloc_ok = (\<lambda>n. n \<le> 16384), allocVector_ok = (\<lambda>n. True)\<rparr>
        [WriteBytes (replicate 16385 0) 16385]
     = Some (Inl AllocationFailure, {})"
  proof -
    let ?ev = "\<lparr>malloc_ok = (\<lambda>n. n \<le> 16384), allocVector_ok = (\<lambda>n. True)\<rparr>"
    let ?s0 = "\<lparr>buf = \<lparr>length_buffer = 16384, pos = 0, data = malloc_cells 16384\<rparr>,
             live = {BufStruct, BufData}\<rparr>"
    have i: "init_buffer ?ev 16384 = (Inr (buf ?s0), live ?s0)"
      by (simp add: init_buffer_def sizeof_buffer_def size_t_of_def)
    then have i': "init_buffer ?ev 16384
        = (Inr \<lparr>length_buffer = 16384, pos = 0, data = malloc_cells 16384\<rparr>, {BufStruct, BufData})"
      by simp
    have ok: "writer_ok ?s0" using init_buffer_writer(1) [OF i'] .
    have x: "expand_buffer ?ev ?s0 =
        (Inl AllocationFailure, ?s0\<lparr>buf := (buf ?s0)\<lparr>length_buffer := 32768\<rparr>, live := {}\<rparr>)"
      by (auto simp: expand_buffer_writer [OF ok] Let_def R_XLEN_T_MAX_def)
    have w: "write_bytes ?ev ?s0 (replicate 16385 0) 16385 =
        Some (Inl AllocationFailure, ?s0\<lparr>buf := (buf ?s0)\<lparr>length_buffer := 32768\<rparr>, live := {}\<rparr>)"
      by (subst write_bytes_unfold) (simp add: x)
    show ?thesis
      by (simp add: pack_def i' out_call_def w)
  qed
  from a b c d e show ?thesis by blast
qed

text \<open>The counting sink driven by the calls of a successful \<open>R_Serialize\<close>.\<close>

lemma sink_serialize_counts:
  assumes "writer_ok s" "R_Serialize ev cs s = Some (Inr u, s')"
  shows "sink_serialize cs k = Inr (k\<lparr>total := total k + nat (appended cs)\<rparr>) \<and> 0 \<le> appended cs"
  using assms
proof (induction cs arbitrary: s k)
  case Nil
  then show ?case by (simp add: appended_def)
next
  case (Cons c cs)
  from Cons.prems(2) obtain v t where c: "out_call ev c s = Some (Inr v, t)"
    and r: "R_Serialize ev cs t = Some (Inr u, s')"
    by (auto split: option.splits sum.splits prod.splits)
  note o = out_call_writer [OF Cons.prems(1) c]
  note ih = Cons.IH [OF o(1) r]
  have ap: "appended (c # cs) = call_count c + appended cs" by (simp add: appended_def)
  have nn: "nat (call_count c + appended cs) = nat (call_count c) + nat (appended cs)"
    using o(6) ih by (simp add: nat_add_distrib)
  show ?case
  proof (cases c)
    case (WriteByte x)
    then show ?thesis using ih [of "sink_append_byte k x"] ap nn o(6)
      by (simp add: sink_append_byte_def)
  next
    case (WriteBytes src n)
    then show ?thesis using ih [of "sink_append_bytes k src n"] ap nn o(6)
      by (simp add: sink_append_bytes_def)
  next
    case EncodeError
    with c show ?thesis by (simp add: out_call_def)
  qed
qed

text \<open>
  Claim C2. \<open>pack_\<close> always returns, for every allocator and every sequence of calls the
  engine issues. When every allocation is granted, the calls are well-formed and hand over
  at most \<open>R_XLEN_T_MAX\<close> bytes, \<open>pack_\<close> returns the raw vector of exactly those bytes,
  through as many growth steps as they need, and the counting sink driven by the same
  calls reports exactly the length of that vector. For any allocator, whenever \<open>pack_\<close>
  returns a raw vector the counting sink reports its length. The size-only call owns no
  heap block (the counting sink is modelled from the spec).
\<close>

theorem measure_equals_packed_length:
  "(\<exists>r. pack ev cs = Some r)
   \<and> ((\<forall>m. malloc_ok ev m) \<and> (\<forall>m. allocVector_ok ev m)
        \<and> list_all call_ok cs \<and> appended cs \<le> R_XLEN_T_MAX
      \<longrightarrow> pack ev cs = Some (Inr (emitted cs), {})
          \<and> calc_serialized_size cs = (Inr (length (emitted cs)), {}))
   \<and> (pack ev cs = Some (Inr raw, lv)
      \<longrightarrow> calc_serialized_size cs = (Inr (length raw), {}))"
proof -
  have c: "calc_serialized_size cs = (Inr (length raw'), {})"
    if p: "pack ev cs = Some (Inr raw', lv')" for raw' lv'
  proof -
    from pack_success(4) [OF p] obtain bnew lv0 u s where
      r: "R_Serialize ev cs \<lparr>buf = bnew, live = lv0\<rparr> = Some (Inr u, s)"
      and ok: "writer_ok \<lparr>buf = bnew, live = lv0\<rparr>" by blast
    from sink_serialize_counts [OF ok r, of "\<lparr>total = 0\<rparr>"]
    have "sink_serialize cs \<lparr>total = 0\<rparr> = Inr \<lparr>total = nat (appended cs)\<rparr>" by simp
    moreover from pack_success(3) [OF p] have "nat (appended cs) = length raw'" by simp
    ultimately show ?thesis by (simp add: calc_serialized_size_def sink_finalize_def)
  qed
  have g: "pack ev cs = Some (Inr (emitted cs), {})
      \<and> calc_serialized_size cs = (Inr (length (emitted cs)), {})"
    if "\<forall>m. malloc_ok ev m" "\<forall>m. allocVector_ok ev m"
      "list_all call_ok cs" "appended cs \<le> R_XLEN_T_MAX"
    using pack_granted(1) [OF that] c [of "emitted cs" "{}"] by simp
  from pack_returns [of ev cs] g c [of raw lv] show ?thesis by blast
qed

text \<open>One byte given as the integer 300, then 40000 bytes in one bulk call: 40001 bytes
  from a buffer that starts with 16384.\<close>

theorem measure_equals_packed_length_witness:
  "(\<forall>m. malloc_ok unlimited m) \<and> (\<forall>m. allocVector_ok unlimited m)
   \<and> list_all call_ok [WriteByte 300, WriteBytes (replicate 40000 7) 40000]
   \<and> appended [WriteByte 300, WriteBytes (replicate 40000 7) 40000] \<le> R_XLEN_T_MAX
   \<and> pack unlimited [WriteByte 300, WriteBytes (replicate 40000 7) 40000]
       = Some (Inr (44 # replicate 40000 7), {})
   \<and> calc_serialized_size [WriteByte 300, WriteBytes (replicate 40000 7) 40000]
       = (Inr 40001, {})
   \<and> (\<exists>s. R_Serialize unlimited [WriteByte 300, WriteBytes (replicate 40000 7) 40000]
            \<lparr>buf = \<lparr>length_buffer = 16384, pos = 0, data = malloc_cells 16384\<rparr>,
               live = {BufStruct, BufData}\<rparr> = Some (Inr (), s)
          \<and> 16384 < length_buffer (buf s))"
proof -
  let ?cs = "[WriteByte 300, WriteBytes (replicate 40000 (7 :: byte)) 40000]"
  have w: "(300 :: byte) = 44" by simp
  have a: "\<forall>m. malloc_ok unlimited m" "\<forall>m. allocVector_ok unlimited m"
    by (simp_all add: unlimited_def)
  have b: "list_all call_ok ?cs" by simp
  have n: "appended ?cs = 40001" by (simp add: appended_def)
  have c: "appended ?cs \<le> R_XLEN_T_MAX" by (simp add: n R_XLEN_T_MAX_def)
  have e: "emitted ?cs = 44 # replicate 40000 7" by (simp add: emitted_def w)
  from measure_equals_packed_length [of unlimited ?cs "emitted ?cs" "{}"] a b c
  have p: "pack unlimited ?cs = Some (Inr (emitted ?cs), {})"
    and m: "calc_serialized_size ?cs = (Inr (length (emitted ?cs)), {})" by blast+
  from serialize_grown [OF b c] n have g: "\<exists>s. R_Serialize unlimited ?cs
            \<lparr>buf = \<lparr>length_buffer = 16384, pos = 0, data = malloc_cells 16384\<rparr>,
               live = {BufStruct, BufData}\<rparr> = Some (Inr (), s)
          \<and> 16384 < length_buffer (buf s)" by auto
  have l: "length (emitted ?cs) = 40001" by (simp add: e)
  from a b c p [unfolded e] m [unfolded l] g show ?thesis by blast
qed

text \<open>The reader callbacks on a well-formed reader that has bytes left.\<close>

lemma read_byte_reader:
  assumes "reader_ok b" "pos b < length_buffer b"
  shows "read_byte b = (Inr (uint (the (data b ! nat (pos b)))), b\<lparr>pos := pos b + 1\<rparr>)"
    and "reader_ok (b\<lparr>pos := pos b + 1\<rparr>)"
proof -
  have ok: "0 \<le> pos b" "int (length (data b)) = length_buffer b"
    "length_buffer b \<le> R_XLEN_T_MAX" "list_all (\<lambda>c. c \<noteq> None) (data b)"
    using assms(1) by (simp_all add: reader_ok_def buffer_ok_def)
  with assms(2) have lt: "nat (pos b) < length (data b)" by linarith
  from list_all_nth_Some [OF ok(4) lt] obtain x where "data b ! nat (pos b) = Some x" ..
  with assms(2) ok show "read_byte b = (Inr (uint (the (data b ! nat (pos b)))), b\<lparr>pos := pos b + 1\<rparr>)"
    by (simp add: read_byte_def)
  from assms(2) ok show "reader_ok (b\<lparr>pos := pos b + 1\<rparr>)"
    by (simp add: reader_ok_def buffer_ok_def)
qed

lemma read_bytes_reader:
  assumes "reader_ok b" "0 \<le> n" "pos b + n \<le> length_buffer b"
  shows "read_bytes b n
      = (Inr (map the (take (nat n) (drop (nat (pos b)) (data b)))), b\<lparr>pos := pos b + n\<rparr>)"
    and "reader_ok (b\<lparr>pos := pos b + n\<rparr>)"
proof -
  show "read_bytes b n
      = (Inr (map the (take (nat n) (drop (nat (pos b)) (data b)))), b\<lparr>pos := pos b + n\<rparr>)"
    using bytes_at_reader [OF assms] assms(3) by (simp add: read_bytes_def)
  show "reader_ok (b\<lparr>pos := pos b + n\<rparr>)"
    using assms by (simp add: reader_ok_def buffer_ok_def)
qed

text \<open>Through a well-formed reader, \<open>R_Unserialize\<close> sees the bytes from the cursor on as
  a plain sequence.\<close>

lemma unserialize_stream:
  assumes "reader_ok b" "decode_stream dec (map the (drop (nat (pos b)) (data b))) = Some v"
  shows "\<exists>b'. R_Unserialize dec b = (Inr v, b')"
  using assms
proof (induction dec arbitrary: b)
  case (Return x)
  then show ?case by simp
next
  case DecodeError
  then show ?case by simp
next
  case (ReadByte k)
  let ?p = "nat (pos b)"
  have ok: "0 \<le> pos b" "int (length (data b)) = length_buffer b"
    using ReadByte.prems(1) by (simp_all add: reader_ok_def buffer_ok_def)
  from ReadByte.prems(2) have ne: "drop ?p (data b) \<noteq> []" by (auto split: list.splits)
  then have lt: "?p < length (data b)" by simp
  with ok have pl: "pos b < length_buffer b" by linarith
  note rb = read_byte_reader [OF ReadByte.prems(1) pl]
  have dr: "drop ?p (data b) = data b ! ?p # drop (Suc ?p) (data b)"
    using lt by (simp add: Cons_nth_drop_Suc)
  have n1: "nat (pos b + 1) = Suc ?p" using ok(1) by simp
  from ReadByte.prems(2) have
    "decode_stream (k (uint (the (data b ! ?p)))) (map the (drop (Suc ?p) (data b))) = Some v"
    by (simp add: dr)
  then have "decode_stream (k (uint (the (data b ! ?p))))
      (map the (drop (nat (pos (b\<lparr>pos := pos b + 1\<rparr>))) (data (b\<lparr>pos := pos b + 1\<rparr>)))) = Some v"
    by (simp add: n1)
  from ReadByte.IH [OF _ rb(2) this] obtain b' where
    "R_Unserialize (k (uint (the (data b ! ?p)))) (b\<lparr>pos := pos b + 1\<rparr>) = (Inr v, b')"
    by blast
  then show ?case by (simp add: rb(1))
next
  case (ReadBytes n k)
  let ?p = "nat (pos b)"
  let ?rest = "map the (drop ?p (data b))"
  have ok: "0 \<le> pos b" "int (length (data b)) = length_buffer b" "pos b \<le> length_buffer b"
    using ReadBytes.prems(1) by (simp_all add: reader_ok_def buffer_ok_def)
  from ReadBytes.prems(2) have n: "0 \<le> n" "nat n \<le> length ?rest"
    and d: "decode_stream (k (take (nat n) ?rest)) (drop (nat n) ?rest) = Some v"
    by (auto split: if_splits)
  from n(2) ok have fit: "pos b + n \<le> length_buffer b" by simp
  note rb = read_bytes_reader [OF ReadBytes.prems(1) n(1) fit]
  have tk: "take (nat n) ?rest = map the (take (nat n) (drop ?p (data b)))"
    by (simp add: take_map)
  have n2: "nat (pos b + n) = nat n + ?p" using ok(1) n(1) by linarith
  have dr: "drop (nat n) ?rest
      = map the (drop (nat (pos (b\<lparr>pos := pos b + n\<rparr>))) (data (b\<lparr>pos := pos b + n\<rparr>)))"
    by (simp add: drop_map n2)
  from d have "decode_stream (k (map the (take (nat n) (drop ?p (data b)))))
      (map the (drop (nat (pos (b\<lparr>pos := pos b + n\<rparr>))) (data (b\<lparr>pos := pos b + n\<rparr>)))) = Some v"
    unfolding tk dr .
  from ReadBytes.IH [OF _ rb(2) this] obtain b' where
    "R_Unserialize (k (map the (take (nat n) (drop ?p (data b))))) (b\<lparr>pos := pos b + n\<rparr>)
      = (Inr v, b')" by blast
  then show ?case by (simp add: rb(1))
qed

lemma pack_raw_bound:
  assumes "pack ev cs = Some (Inr raw, lv)"
  shows "int (length raw) \<le> R_XLEN_T_MAX"
proof -
  from assms obtain bnew lv0 u s where i: "init_buffer ev 16384 = (Inr bnew, lv0)"
    and r: "R_Serialize ev cs \<lparr>buf = bnew, live = lv0\<rparr> = Some (Inr u, s)"
    by (auto simp: pack_def split: prod.splits sum.splits option.splits if_splits)
  from R_Serialize_writer [OF init_buffer_writer(1) [OF i] r] have "writer_ok s" by simp
  then have "pos (buf s) \<le> R_XLEN_T_MAX" by (simp add: writer_ok_def buffer_ok_def)
  with pack_of_serialize(2) [OF i r] pack_success(3) [OF assms] show ?thesis by simp
qed

text \<open>
  Claim C1. Let the engine issue the write calls \<open>cs\<close> for a value and let its decoder
  return \<open>v\<close> from the byte sequence those calls emit. \<open>pack_\<close> always returns. When
  every allocation is granted, the calls are well-formed and hand over at most
  \<open>R_XLEN_T_MAX\<close> bytes, \<open>pack_\<close> returns the raw vector of exactly the emitted bytes,
  through as many growth steps as they need, and \<open>unpack_\<close> of that vector returns \<open>v\<close>
  and frees its struct. For any allocator, whenever \<open>pack_\<close> returns a raw vector,
  \<open>unpack_\<close> of that vector returns \<open>v\<close>, provided \<open>unpack_\<close> obtains its struct
  from \<open>malloc\<close>: the buffers hand the engine's bytes over unchanged, complete and in
  order.
\<close>

theorem unpack_pack_roundtrip:
  "(\<exists>r. pack ev cs = Some r)
   \<and> ((\<forall>m. malloc_ok ev m) \<and> (\<forall>m. allocVector_ok ev m)
        \<and> list_all call_ok cs \<and> appended cs \<le> R_XLEN_T_MAX
        \<and> decode_stream dec (emitted cs) = Some v
      \<longrightarrow> pack ev cs = Some (Inr (emitted cs), {})
          \<and> unpack ev dec (RAWSXP (emitted cs)) = (Inr v, {}))
   \<and> (pack ev cs = Some (Inr raw, lv) \<and> decode_stream dec (emitted cs) = Some v
        \<and> malloc_ok ev' sizeof_buffer
      \<longrightarrow> unpack ev' dec (RAWSXP raw) = (Inr v, {}))"
proof -
  have u: "unpack ev2 dec (RAWSXP raw') = (Inr v, {})"
    if p: "pack ev cs = Some (Inr raw', lv')" and d: "decode_stream dec (emitted cs) = Some v"
      and m: "malloc_ok ev2 sizeof_buffer" for raw' lv' ev2
  proof -
    have raw: "raw' = emitted cs" by (rule pack_success(1) [OF p])
    have ok: "reader_ok (reader_over raw')"
      by (rule reader_over_ok [OF pack_raw_bound [OF p]])
    have "map the (drop (nat (pos (reader_over raw'))) (data (reader_over raw'))) = raw'"
      by (simp add: reader_over_def comp_def)
    with d raw have "decode_stream dec
        (map the (drop (nat (pos (reader_over raw'))) (data (reader_over raw')))) = Some v"
      by simp
    from unserialize_stream [OF ok this] obtain b' where
      "R_Unserialize dec (reader_over raw') = (Inr v, b')" by blast
    with m show ?thesis by (simp add: unpack_def)
  qed
  have g: "pack ev cs = Some (Inr (emitted cs), {})
      \<and> unpack ev dec (RAWSXP (emitted cs)) = (Inr v, {})"
    if a: "\<forall>m. malloc_ok ev m" "\<forall>m. allocVector_ok ev m"
      "list_all call_ok cs" "appended cs \<le> R_XLEN_T_MAX"
      and d: "decode_stream dec (emitted cs) = Some v"
  proof -
    note p = pack_granted(1) [OF a]
    from a(1) have "malloc_ok ev sizeof_buffer" by simp
    from p u [OF p d this] show ?thesis by simp
  qed
  from pack_returns [of ev cs] g u [of raw lv ev'] show ?thesis by blast
qed

text \<open>The first 65536 bytes of a source of 70000 in one bulk call, then one byte given as
  the integer 300; the decoder reads 65536 bytes, then one, and returns both.\<close>

theorem unpack_pack_roundtrip_witness:
  "(\<forall>m. malloc_ok unlimited m) \<and> (\<forall>m. allocVector_ok unlimited m)
   \<and> list_all call_ok [WriteBytes (replicate 70000 9) 65536, WriteByte 300]
   \<and> appended [WriteBytes (replicate 70000 9) 65536, WriteByte 300] \<le> R_XLEN_T_MAX
   \<and> decode_stream (ReadBytes 65536 (\<lambda>bs. ReadByte (\<lambda>x. Return (bs, x))))
        (emitted [WriteBytes (replicate 70000 9) 65536, WriteByte 300])
       = Some (replicate 65536 9, 44)
   \<and> malloc_ok unlimited sizeof_buffer
   \<and> pack unlimited [WriteBytes (replicate 70000 9) 65536, WriteByte 300]
       = Some (Inr (replicate 65536 9 @ [44]), {})
   \<and> unpack unlimited (ReadBytes 65536 (\<lambda>bs. ReadByte (\<lambda>x. Return (bs, x))))
        (RAWSXP (replicate 65536 9 @ [44]))
       = (Inr (replicate 65536 9, 44), {})
   \<and> (\<exists>s. R_Serialize unlimited [WriteBytes (replicate 70000 9) 65536, WriteByte 300]
            \<lparr>buf = \<lparr>length_buffer = 16384, pos = 0, data = malloc_cells 16384\<rparr>,
               live = {BufStruct, BufData}\<rparr> = Some (Inr (), s)
          \<and> 65536 < length_buffer (buf s))"
proof -
  let ?cs = "[WriteBytes (replicate 70000 (9 :: byte)) 65536, WriteByte 300]"
  let ?dec = "ReadBytes 65536 (\<lambda>bs. ReadByte (\<lambda>x. Return (bs, x)))"
  have w: "(300 :: byte) = 44" by simp
  have a: "\<forall>m. malloc_ok unlimited m" "\<forall>m. allocVector_ok unlimited m"
    by (simp_all add: unlimited_def)
  have b: "list_all call_ok ?cs" by simp
  have n: "appended ?cs = 65537" by (simp add: appended_def)
  have c: "appended ?cs \<le> R_XLEN_T_MAX" by (simp add: n R_XLEN_T_MAX_def)
  have e: "emitted ?cs = replicate 65536 9 @ [44]" by (simp add: emitted_def w)
  have d: "decode_stream ?dec (emitted ?cs) = Some (replicate 65536 9, 44)"
    by (simp add: e)
  from unpack_pack_roundtrip [of unlimited ?cs ?dec "(replicate 65536 9, 44)"
      "emitted ?cs" "{}" unlimited] a b c d
  have p: "pack unlimited ?cs = Some (Inr (emitted ?cs), {})"
    and u: "unpack unlimited ?dec (RAWSXP (emitted ?cs)) = (Inr (replicate 65536 9, 44), {})"
    by blast+
  from serialize_grown [OF b c] n have g: "\<exists>s. R_Serialize unlimited ?cs
            \<lparr>buf = \<lparr>length_buffer = 16384, pos = 0, data = malloc_cells 16384\<rparr>,
               live = {BufStruct, BufData}\<rparr> = Some (Inr (), s)
          \<and> 65536 < length_buffer (buf s)" by auto
  from a(1) have m: "malloc_ok unlimited sizeof_buffer" by simp
  from a b c d m p [unfolded e] u [unfolded e] g show ?thesis by blast
qed

end
